theory Spec2Isabelle
  imports Main "HOL-Library.Multiset"
begin

section \<open>JavaScript values of the operation parameters\<close>

text \<open>
  The handlers of \<^verbatim>\<open>contract/protocol.js\<close> receive an untyped parameter object, which
  the peer takes from its own command line or from its HTTP interface
  (\<^verbatim>\<open>api_tx_exposed: true\<close>).  A parameter is a primitive value or an array of such
  values; an absent field reads as \<open>JUndefined\<close>.  Numbers are the integers (printed in
  decimal, as JavaScript prints the integers of magnitude below \<open>10\<^sup>2\<^sup>1\<close>), strings are
  lists of code units.  Objects with named fields are not parameter values of this model.
\<close>

datatype js_value =
  JUndefined | JNull | JBool bool | JNum int | JStr string | JArr "js_value list"

text \<open>\<^verbatim>\<open>if (v)\<close> and \<^verbatim>\<open>!v\<close>: the falsy values are undefined, null, false, 0 and '';
  every array is truthy.\<close>

fun truthy :: "js_value \<Rightarrow> bool" where
  "truthy JUndefined = False"
| "truthy JNull = False"
| "truthy (JBool b) = b"
| "truthy (JNum n) = (n \<noteq> 0)"
| "truthy (JStr s) = (s \<noteq> [])"
| "truthy (JArr xs) = True"

fun typeof :: "js_value \<Rightarrow> string" where
  "typeof JUndefined = ''undefined''"
| "typeof JNull = ''object''"
| "typeof (JBool b) = ''boolean''"
| "typeof (JNum n) = ''number''"
| "typeof (JStr s) = ''string''"
| "typeof (JArr xs) = ''object''"

definition digit_char :: "nat \<Rightarrow> char" where
  "digit_char d = ''0123456789'' ! d"

text \<open>\<^verbatim>\<open>String(n)\<close> for a non-negative integer: its decimal digits, no leading zero.\<close>

fun string_of_nat :: "nat \<Rightarrow> string" where
  "string_of_nat n =
     (if n < 10 then [digit_char n]
      else string_of_nat (n div 10) @ [digit_char (n mod 10)])"

declare string_of_nat.simps [simp del]

text \<open>\<^verbatim>\<open>parts.join(',')\<close>\<close>

fun join_comma :: "string list \<Rightarrow> string" where
  "join_comma [] = []"
| "join_comma [x] = x"
| "join_comma (x # y # ys) = x @ CHR '','' # join_comma (y # ys)"

text \<open>
  The string conversion of a template literal \<^verbatim>\<open>`${v}`\<close>.  An array prints as its
  elements joined by commas, where null and undefined elements print as the empty string:
  \<^verbatim>\<open>`${['task_000001']}`\<close> is \<^verbatim>\<open>task_000001\<close>.
\<close>

fun to_string :: "js_value \<Rightarrow> string" where
  "to_string JUndefined = ''undefined''"
| "to_string JNull = ''null''"
| "to_string (JBool b) = (if b then ''true'' else ''false'')"
| "to_string (JNum n) =
     (if n < 0 then CHR ''-'' # string_of_nat (nat (- n)) else string_of_nat (nat n))"
| "to_string (JStr s) = s"
| "to_string (JArr xs) =
     join_comma (map (\<lambda>v. if v = JNull \<or> v = JUndefined then [] else to_string v) xs)"

text \<open>
  \<^verbatim>\<open>s.padStart(n, c)\<close> with a one-character pad: \<open>s\<close> itself when it already has
  \<open>n\<close> code units or more (the subtraction on \<open>nat\<close> stops at 0).
\<close>

definition padStart :: "nat \<Rightarrow> char \<Rightarrow> string \<Rightarrow> string" where
  "padStart n c s = replicate (n - length s) c @ s"

text \<open>White space removed by \<^verbatim>\<open>trim()\<close>, among the code units below 256:
  tab, line feed, vertical tab, form feed, carriage return, space, no-break space.\<close>

definition is_ws :: "char \<Rightarrow> bool" where
  "is_ws c = (c \<in> set [CHR 0x09, CHR 0x0A, CHR 0x0B, CHR 0x0C, CHR 0x0D, CHR 0x20, CHR 0xA0])"

definition trim :: "string \<Rightarrow> string" where
  "trim s = rev (dropWhile is_ws (rev (dropWhile is_ws s)))"

section \<open>Errors\<close>

text \<open>
  Every \<^verbatim>\<open>throw new Error(msg)\<close> of the handlers is one constructor application: the
  constructor names the kind of the throw statement (input validation, lookup, task state,
  authorization), its argument is the message.  \<open>TypeError\<close> is the fault the runtime
  raises on a property read of \<^verbatim>\<open>null\<close> or on a call of a non-function.
\<close>

datatype error =
    ValidationError string
  | NotFoundError string
  | InvalidStateError string
  | AuthorizationError string
  | TypeError string

fun is_handler_error :: "error \<Rightarrow> bool" where
  "is_handler_error (TypeError m) = False"
| "is_handler_error e = True"

fun is_TypeError :: "error \<Rightarrow> bool" where
  "is_TypeError (TypeError m) = True"
| "is_TypeError e = False"

text \<open>\<^verbatim>\<open>v.length\<close>: a fault on null and undefined, the length of a string, the number
  of elements of an array, and \<^verbatim>\<open>undefined\<close> (here \<open>None\<close>) on a boolean or a number.\<close>

fun js_length :: "js_value \<Rightarrow> error + nat option" where
  "js_length JUndefined =
     Inl (TypeError (''Cannot read properties of undefined (reading 'length')''))"
| "js_length JNull =
     Inl (TypeError (''Cannot read properties of null (reading 'length')''))"
| "js_length (JStr s) = Inr (Some (length s))"
| "js_length (JArr xs) = Inr (Some (length xs))"
| "js_length v = Inr None"

text \<open>\<^verbatim>\<open>x > n\<close> where \<open>x\<close> may be \<^verbatim>\<open>undefined\<close>: the comparison with
  \<^verbatim>\<open>undefined\<close> is false.\<close>

fun js_gt :: "nat option \<Rightarrow> nat \<Rightarrow> bool" where
  "js_gt None n = False"
| "js_gt (Some m) n = (m > n)"

text \<open>\<^verbatim>\<open>v.trim()\<close>: only a string has the method.\<close>

fun js_trim :: "string \<Rightarrow> js_value \<Rightarrow> error + string" where
  "js_trim nm (JStr s) = Inr (trim s)"
| "js_trim nm JUndefined =
     Inl (TypeError (''Cannot read properties of undefined (reading 'trim')''))"
| "js_trim nm JNull =
     Inl (TypeError (''Cannot read properties of null (reading 'trim')''))"
| "js_trim nm v = Inl (TypeError (nm @ ''.trim is not a function''))"

section \<open>Tasks\<close>

datatype status = Open | Completed | Cancelled

fun status_name :: "status \<Rightarrow> string" where
  "status_name Open = ''open''"
| "status_name Completed = ''completed''"
| "status_name Cancelled = ''cancelled''"

text \<open>The task object.  \<open>completed_by\<close> and \<open>cancelled_by\<close> are absent until the
  transition that sets them.\<close>

record task =
  id' :: string
  title :: string
  desc :: string
  assignee :: js_value
  creator :: string
  status :: status
  created_at :: int
  updated_at :: int
  completed_by :: "string option"
  cancelled_by :: "string option"

section \<open>The state store\<close>

text \<open>
  Modelled from the spec: the state store (\<^verbatim>\<open>state.get\<close>, \<^verbatim>\<open>set\<close>,
  \<^verbatim>\<open>increment\<close>, \<^verbatim>\<open>sadd\<close>, \<^verbatim>\<open>srem\<close>, \<^verbatim>\<open>smembers\<close>) belongs to the
  peer runtime, which is not part of the repository.  Its contract: \<open>get\<close> returns the
  value or absent; \<open>set\<close> is an upsert; \<open>increment\<close> returns the new value and starts
  from 1 on an unseen key; a named set has add, remove and enumerate, and adding a member
  twice has no further effect.  A set is kept as the list of its members in insertion
  order.
\<close>

record store =
  counters :: "string \<rightharpoonup> nat"
  objects :: "string \<rightharpoonup> task"
  sets :: "string \<rightharpoonup> js_value list"

definition empty_store :: store where
  "empty_store = \<lparr>counters = Map.empty, objects = Map.empty, sets = Map.empty\<rparr>"

definition st_get :: "string \<Rightarrow> store \<Rightarrow> task option" where
  "st_get k s = objects s k"

definition st_set :: "string \<Rightarrow> task \<Rightarrow> store \<Rightarrow> store" where
  "st_set k v s = s\<lparr>objects := (objects s)(k \<mapsto> v)\<rparr>"

definition increment :: "string \<Rightarrow> store \<Rightarrow> nat \<times> store" where
  "increment k s =
     (let n = (case counters s k of None \<Rightarrow> 1 | Some m \<Rightarrow> m + 1)
      in (n, s\<lparr>counters := (counters s)(k \<mapsto> n)\<rparr>))"

definition smembers :: "string \<Rightarrow> store \<Rightarrow> js_value list option" where
  "smembers k s = sets s k"

definition sadd :: "string \<Rightarrow> js_value \<Rightarrow> store \<Rightarrow> store" where
  "sadd k m s =
     (case sets s k of
        None \<Rightarrow> s\<lparr>sets := (sets s)(k \<mapsto> [m])\<rparr>
      | Some ms \<Rightarrow> if m \<in> set ms then s else s\<lparr>sets := (sets s)(k \<mapsto> ms @ [m])\<rparr>)"

definition srem :: "string \<Rightarrow> js_value \<Rightarrow> store \<Rightarrow> store" where
  "srem k m s =
     (case sets s k of
        None \<Rightarrow> s
      | Some ms \<Rightarrow> s\<lparr>sets := (sets s)(k \<mapsto> removeAll m ms)\<rparr>)"

text \<open>\<^verbatim>\<open>await state.smembers(k) ?? []\<close>\<close>

definition members :: "string \<Rightarrow> store \<Rightarrow> js_value list" where
  "members k s = (case smembers k s of None \<Rightarrow> [] | Some ms \<Rightarrow> ms)"

section \<open>Handler context and results\<close>

text \<open>
  What a handler receives besides the store and the parameters: the signer of the
  operation, the admin query of the peer (\<^verbatim>\<open>peer.isAdmin\<close>), and the wall clock:
  \<open>now c k\<close> is what the \<open>k\<close>-th call of \<^verbatim>\<open>Date.now()\<close> inside the handler returns.
\<close>

record ctx =
  signer :: string
  isAdmin :: "string \<Rightarrow> bool"
  now :: "nat \<Rightarrow> int"

text \<open>The object handed to \<^verbatim>\<open>broadcast\<close> (before \<^verbatim>\<open>JSON.stringify\<close>).\<close>

record notification =
  n_type :: string
  n_id :: js_value
  n_status :: string

text \<open>The value a transaction returns, with the notification it broadcast.\<close>

record tx_result =
  success :: bool
  r_id :: js_value
  r_task :: task
  r_broadcast :: notification

record add_params =
  p_title :: js_value
  p_desc :: js_value
  p_assignee :: js_value

record id_params =
  p_id :: js_value

record list_params =
  q_status :: js_value
  q_assignee :: js_value

text \<open>A destructuring default \<^verbatim>\<open>{ x = d }\<close> applies to \<^verbatim>\<open>undefined\<close> only.\<close>

definition default_to :: "js_value \<Rightarrow> js_value \<Rightarrow> js_value" where
  "default_to d v = (if v = JUndefined then d else v)"

section \<open>Transactions\<close>

text \<open>
  A handler returns the store as it is when the handler returns or throws, and the error
  thrown (\<open>Inl\<close>) or the result (\<open>Inr\<close>).
\<close>

definition taskId_of :: "nat \<Rightarrow> string" where
  "taskId_of n = ''task_'' @ padStart 6 (CHR ''0'') (string_of_nat n)"

definition add_task :: "ctx \<Rightarrow> add_params \<Rightarrow> store \<Rightarrow> store \<times> (error + tx_result)" where
  "add_task c params s =
     (let title = p_title params;
          desc = default_to (JStr []) (p_desc params);
          assignee = default_to JNull (p_assignee params)
      in
      if \<not> truthy title \<or> typeof title \<noteq> ''string''
      then (s, Inl (ValidationError ''title is required''))
      else (case js_length title of
        Inl e \<Rightarrow> (s, Inl e)
      | Inr tlen \<Rightarrow>
        if js_gt tlen 140 then (s, Inl (ValidationError ''title exceeds 140 characters''))
        else (case js_length desc of
          Inl e \<Rightarrow> (s, Inl e)
        | Inr dlen \<Rightarrow>
          if js_gt dlen 1000 then (s, Inl (ValidationError ''desc exceeds 1000 characters''))
          else
            (let (n, s1) = increment ''task_seq'' s;
                 taskId = taskId_of n
             in (case js_trim ''title'' title of
               Inl e \<Rightarrow> (s1, Inl e)
             | Inr tt \<Rightarrow>
               (case js_trim ''desc'' desc of
                 Inl e \<Rightarrow> (s1, Inl e)
               | Inr dt \<Rightarrow>
                 (let task = \<lparr>id' = taskId, title = tt, desc = dt, assignee = assignee,
                              creator = signer c, status = Open,
                              created_at = now c 0, updated_at = now c 1,
                              completed_by = None, cancelled_by = None\<rparr>;
                      s2 = st_set (''task:'' @ taskId) task s1;
                      s3 = sadd ''tasks:all'' (JStr taskId) s2;
                      s4 = sadd ''tasks:open'' (JStr taskId) s3;
                      s5 = (if truthy assignee
                            then sadd (''tasks:assignee:'' @ to_string assignee) (JStr taskId) s4
                            else s4)
                  in (s5, Inr \<lparr>success = True, r_id = JStr taskId, r_task = task,
                               r_broadcast = \<lparr>n_type = ''task_update'', n_id = JStr taskId,
                                              n_status = ''open''\<rparr>\<rparr>))))))))"

definition complete_task :: "ctx \<Rightarrow> id_params \<Rightarrow> store \<Rightarrow> store \<times> (error + tx_result)" where
  "complete_task c params s =
     (let id = p_id params in
      if \<not> truthy id then (s, Inl (ValidationError ''id is required''))
      else case st_get (''task:'' @ to_string id) s of
        None \<Rightarrow> (s, Inl (NotFoundError (''Task '' @ to_string id @ '' not found'')))
      | Some task \<Rightarrow>
          if status task \<noteq> Open
          then (s, Inl (InvalidStateError
                  (''Task '' @ to_string id @ '' is not open (status: ''
                     @ status_name (status task) @ '')'')))
          else
            let isAuthorized = (creator task = signer c \<or> assignee task = JStr (signer c)) in
            if \<not> isAuthorized
            then (s, Inl (AuthorizationError
                    ''Only the creator or assignee may complete this task''))
            else
              let task1 = task\<lparr>status := Completed, updated_at := now c 0,
                               completed_by := Some (signer c)\<rparr>;
                  s1 = st_set (''task:'' @ to_string id) task1 s;
                  s2 = srem ''tasks:open'' id s1;
                  s3 = sadd ''tasks:completed'' id s2
              in (s3, Inr \<lparr>success = True, r_id = id, r_task = task1,
                           r_broadcast = \<lparr>n_type = ''task_update'', n_id = id,
                                          n_status = ''completed''\<rparr>\<rparr>))"

definition cancel_task :: "ctx \<Rightarrow> id_params \<Rightarrow> store \<Rightarrow> store \<times> (error + tx_result)" where
  "cancel_task c params s =
     (let id = p_id params in
      if \<not> truthy id then (s, Inl (ValidationError ''id is required''))
      else case st_get (''task:'' @ to_string id) s of
        None \<Rightarrow> (s, Inl (NotFoundError (''Task '' @ to_string id @ '' not found'')))
      | Some task \<Rightarrow>
          if status task \<noteq> Open
          then (s, Inl (InvalidStateError (''Task '' @ to_string id @ '' is not open'')))
          else
            let admin = isAdmin c (signer c) in
            if creator task \<noteq> signer c \<and> \<not> admin
            then (s, Inl (AuthorizationError
                    ''Only the creator or an admin may cancel this task''))
            else
              let task1 = task\<lparr>status := Cancelled, updated_at := now c 0,
                               cancelled_by := Some (signer c)\<rparr>;
                  s1 = st_set (''task:'' @ to_string id) task1 s;
                  s2 = srem ''tasks:open'' id s1;
                  s3 = sadd ''tasks:cancelled'' id s2
              in (s3, Inr \<lparr>success = True, r_id = id, r_task = task1,
                           r_broadcast = \<lparr>n_type = ''task_update'', n_id = id,
                                          n_status = ''cancelled''\<rparr>\<rparr>))"

text \<open>The transaction table: an operation names its method and carries its parameters.\<close>

datatype operation = Add_task add_params | Complete_task id_params | Cancel_task id_params

fun apply_op :: "ctx \<Rightarrow> operation \<Rightarrow> store \<Rightarrow> store \<times> (error + tx_result)" where
  "apply_op c (Add_task p) s = add_task c p s"
| "apply_op c (Complete_task p) s = complete_task c p s"
| "apply_op c (Cancel_task p) s = cancel_task c p s"

section \<open>Views\<close>

record list_result =
  tasks :: "task list"
  count :: nat

text \<open>
  The loop of \<^verbatim>\<open>list_tasks\<close> over the candidate ids: an id without a task object is
  skipped; a task object is pushed when no status filter is given or its status is the
  filter.
\<close>

fun collect_tasks :: "js_value \<Rightarrow> store \<Rightarrow> js_value list \<Rightarrow> task list \<Rightarrow> task list" where
  "collect_tasks st s [] acc = acc"
| "collect_tasks st s (i # ids) acc =
     (case st_get (''task:'' @ to_string i) s of
        None \<Rightarrow> collect_tasks st s ids acc
      | Some t \<Rightarrow>
          if \<not> truthy st \<or> JStr (status_name (status t)) = st
          then collect_tasks st s ids (acc @ [t])
          else collect_tasks st s ids acc)"

text \<open>\<^verbatim>\<open>tasks.sort((a, b) => b.created_at - a.created_at)\<close>: a stable sort, newest first.\<close>

definition sort_newest_first :: "task list \<Rightarrow> task list" where
  "sort_newest_first ts = sort_key (\<lambda>t. - created_at t) ts"

text \<open>\<^verbatim>\<open>params ?? {}\<close>: without a parameter object both filters are undefined.\<close>

definition list_tasks :: "list_params option \<Rightarrow> store \<Rightarrow> list_result" where
  "list_tasks params s =
     (let st = (case params of None \<Rightarrow> JUndefined | Some p \<Rightarrow> q_status p);
          assignee = (case params of None \<Rightarrow> JUndefined | Some p \<Rightarrow> q_assignee p);
          ids = (if truthy assignee then members (''tasks:assignee:'' @ to_string assignee) s
                 else if truthy st then members (''tasks:'' @ to_string st) s
                 else members ''tasks:all'' s);
          ts = sort_newest_first (collect_tasks st s ids [])
      in \<lparr>tasks = ts, count = length ts\<rparr>)"

definition get_task :: "id_params option \<Rightarrow> store \<Rightarrow> error + task" where
  "get_task params s =
     (let id = (case params of None \<Rightarrow> JUndefined | Some p \<Rightarrow> p_id p) in
      if \<not> truthy id then Inl (ValidationError ''id is required'')
      else case st_get (''task:'' @ to_string id) s of
        None \<Rightarrow> Inl (NotFoundError (''Task '' @ to_string id @ '' not found''))
      | Some task \<Rightarrow> Inr task)"

record stats_result =
  total :: nat
  "open" :: nat
  completed :: nat
  cancelled :: nat

definition stats :: "store \<Rightarrow> stats_result" where
  "stats s =
     \<lparr>total = length (members ''tasks:all'' s),
      open = length (members ''tasks:open'' s),
      completed = length (members ''tasks:completed'' s),
      cancelled = length (members ''tasks:cancelled'' s)\<rparr>"

section \<open>Runs and reachable stores\<close>

text \<open>
  The operations of a log are applied one after the other, each on the store the one
  before left, whatever its outcome.  Each operation comes with the context it is applied
  in.
\<close>

fun run :: "(ctx \<times> operation) list \<Rightarrow> store \<Rightarrow> store" where
  "run [] s = s"
| "run ((c, op) # rest) s = run rest (fst (apply_op c op s))"

text \<open>The ids that the successful \<^verbatim>\<open>add_task\<close> operations of a log return, in order.\<close>

fun added_ids :: "(ctx \<times> operation) list \<Rightarrow> store \<Rightarrow> js_value list" where
  "added_ids [] s = []"
| "added_ids ((c, Add_task p) # rest) s =
     (case add_task c p s of
        (s1, Inr r) \<Rightarrow> r_id r # added_ids rest s1
      | (s1, Inl e) \<Rightarrow> added_ids rest s1)"
| "added_ids ((c, op) # rest) s = added_ids rest (fst (apply_op c op s))"

inductive reachable :: "store \<Rightarrow> bool" where
  initial: "reachable empty_store"
| step: "reachable s \<Longrightarrow> apply_op c op s = (s', r) \<Longrightarrow> reachable s'"

section \<open>Auxiliary notions\<close>

text \<open>The value of the counter \<^verbatim>\<open>task_seq\<close>, 0 before its first increment.\<close>

definition seq :: "store \<Rightarrow> nat" where
  "seq s = (case counters s ''task_seq'' of None \<Rightarrow> 0 | Some n \<Rightarrow> n)"

definition bump_seq :: "store \<Rightarrow> store" where
  "bump_seq s = s\<lparr>counters := (counters s)(''task_seq'' \<mapsto> Suc (seq s))\<rparr>"

text \<open>The task object and the store that a successful \<^verbatim>\<open>add_task\<close> produces, in
  closed form (lemma \<open>add_task_ok\<close>).\<close>

definition created_task :: "ctx \<Rightarrow> nat \<Rightarrow> string \<Rightarrow> string \<Rightarrow> js_value \<Rightarrow> task" where
  "created_task c n t d a =
     \<lparr>id' = taskId_of n, title = trim t, desc = trim d, assignee = a,
      creator = signer c, status = Open, created_at = now c 0, updated_at = now c 1,
      completed_by = None, cancelled_by = None\<rparr>"

definition created_store :: "task \<Rightarrow> store \<Rightarrow> store" where
  "created_store tk s =
     (let s1 = bump_seq s;
          s2 = st_set (''task:'' @ id' tk) tk s1;
          s3 = sadd ''tasks:all'' (JStr (id' tk)) s2;
          s4 = sadd ''tasks:open'' (JStr (id' tk)) s3
      in if truthy (assignee tk)
         then sadd (''tasks:assignee:'' @ to_string (assignee tk)) (JStr (id' tk)) s4
         else s4)"

text \<open>Contexts and parameters of the examples.\<close>

definition ctx_of :: "string \<Rightarrow> bool \<Rightarrow> int \<Rightarrow> ctx" where
  "ctx_of who adm t = \<lparr>signer = who, isAdmin = (\<lambda>a. adm), now = (\<lambda>k. t)\<rparr>"

definition titled :: "string \<Rightarrow> add_params" where
  "titled t = \<lparr>p_title = JStr t, p_desc = JUndefined, p_assignee = JUndefined\<rparr>"

text \<open>Reading a decimal string back: the inverse of \<open>string_of_nat\<close>, used to show that
  ids of different sequence numbers differ.\<close>

definition digit_val :: "char \<Rightarrow> nat" where
  "digit_val c = of_char c - 48"

definition digits_value :: "string \<Rightarrow> nat" where
  "digits_value cs = foldl (\<lambda>a c. 10 * a + digit_val c) 0 cs"

definition seq_of_id :: "string \<Rightarrow> nat" where
  "seq_of_id tid = digits_value (drop 5 tid)"

text \<open>The key of the set that indexes a status.\<close>

definition status_key :: "status \<Rightarrow> string" where
  "status_key st = ''tasks:'' @ status_name st"

text \<open>
  Consistency of the store: every task object is stored under the key of its own id, which
  is the id of a sequence number already handed out; \<^verbatim>\<open>tasks:all\<close> holds exactly the ids
  of the task objects, and the set of a status exactly the ids of the task objects in that
  status, each without repetition.  It is kept by the operations whose id parameter is a
  string (lemma \<open>store_inv_run\<close>).
\<close>

definition store_inv :: "store \<Rightarrow> bool" where
  "store_inv s \<longleftrightarrow>
     (\<forall>k t. objects s k = Some t \<longrightarrow>
        k = ''task:'' @ id' t \<and> (\<exists>n. 0 < n \<and> n \<le> seq s \<and> id' t = taskId_of n))
   \<and> distinct (members ''tasks:all'' s)
   \<and> (\<forall>v. v \<in> set (members ''tasks:all'' s) \<longleftrightarrow>
          (\<exists>i t. v = JStr i \<and> objects s (''task:'' @ i) = Some t))
   \<and> (\<forall>st. distinct (members (status_key st) s))
   \<and> (\<forall>st v. v \<in> set (members (status_key st) s) \<longleftrightarrow>
          (\<exists>i t. v = JStr i \<and> objects s (''task:'' @ i) = Some t \<and> status t = st))"

text \<open>An operation whose id parameter, if it has one, is a string.\<close>

fun is_string :: "js_value \<Rightarrow> bool" where
  "is_string (JStr i) = True"
| "is_string v = False"

fun string_id :: "operation \<Rightarrow> bool" where
  "string_id (Add_task p) = True"
| "string_id (Complete_task p) = is_string (p_id p)"
| "string_id (Cancel_task p) = is_string (p_id p)"

text \<open>The three writes of \<open>complete_task\<close> and \<open>cancel_task\<close>, in closed form.\<close>

definition moved_store :: "string \<Rightarrow> js_value \<Rightarrow> task \<Rightarrow> store \<Rightarrow> store" where
  "moved_store dest v t1 s =
     sadd dest v (srem ''tasks:open'' v (st_set (''task:'' @ to_string v) t1 s))"

text \<open>The store after one \<open>add_task\<close> by alice, assigned to bob, at time 7.\<close>

definition first_store :: store where
  "first_store =
     fst (add_task (ctx_of ''alice'' False 7)
            \<lparr>p_title = JStr ''Write spec'', p_desc = JUndefined, p_assignee = JStr ''bob''\<rparr>
            empty_store)"

text \<open>
  Two logs of two successful operations each: alice creates the task and then completes it,
  or cancels it, naming it by the one-element array \<^verbatim>\<open>['task_000001']\<close>; and the stores
  they lead to.
\<close>

definition array_complete_log :: "(ctx \<times> operation) list" where
  "array_complete_log =
     [(ctx_of ''alice'' False 7,
       Add_task \<lparr>p_title = JStr ''Write spec'', p_desc = JUndefined, p_assignee = JStr ''bob''\<rparr>),
      (ctx_of ''alice'' False 9, Complete_task \<lparr>p_id = JArr [JStr ''task_000001'']\<rparr>)]"

definition array_completed_store :: store where
  "array_completed_store = run array_complete_log empty_store"

definition array_cancel_log :: "(ctx \<times> operation) list" where
  "array_cancel_log =
     [(ctx_of ''alice'' False 7,
       Add_task \<lparr>p_title = JStr ''Write spec'', p_desc = JUndefined, p_assignee = JStr ''bob''\<rparr>),
      (ctx_of ''alice'' False 9, Cancel_task \<lparr>p_id = JArr [JStr ''task_000001'']\<rparr>)]"

definition array_cancelled_store :: store where
  "array_cancelled_store = run array_cancel_log empty_store"

text \<open>A store whose counter stands at 999999.\<close>

definition late_store :: store where
  "late_store = empty_store\<lparr>counters := [''task_seq'' \<mapsto> 999999]\<rparr>"

text \<open>The task objects of the ids that have one, in the order of the ids.\<close>

definition existing_tasks :: "js_value list \<Rightarrow> store \<Rightarrow> task list" where
  "existing_tasks ids s = List.map_filter (\<lambda>i. st_get (''task:'' @ to_string i) s) ids"

text \<open>\<^verbatim>\<open>t.status === status\<close>\<close>

definition has_status :: "js_value \<Rightarrow> task \<Rightarrow> bool" where
  "has_status st t \<longleftrightarrow> JStr (status_name (status t)) = st"

section \<open>Basic facts about the store and the string functions\<close>

lemma increment_task_seq: "increment ''task_seq'' s = (Suc (seq s), bump_seq s)"
  by (simp add: increment_def seq_def bump_seq_def Let_def split: option.splits)

lemma objects_sadd [simp]: "objects (sadd k m s) = objects s"
  by (simp add: sadd_def split: option.splits)

lemma objects_srem [simp]: "objects (srem k m s) = objects s"
  by (simp add: srem_def split: option.splits)

lemma objects_bump_seq [simp]: "objects (bump_seq s) = objects s"
  by (simp add: bump_seq_def)

lemma objects_st_set [simp]: "objects (st_set k v s) = (objects s)(k \<mapsto> v)"
  by (simp add: st_set_def)

lemma objects_created_store:
  "objects (created_store tk s) = (objects s)(''task:'' @ id' tk \<mapsto> tk)"
  by (simp add: created_store_def Let_def)

lemma trim_Nil: "trim [] = []"
  by (simp add: trim_def)

lemma dropWhile_replicate_ws:
  "is_ws b \<Longrightarrow> dropWhile is_ws (replicate n b @ ys) = dropWhile is_ws ys"
  by (induction n) simp_all

lemma trim_padded_right: "\<not> is_ws a \<Longrightarrow> is_ws b \<Longrightarrow> trim (a # replicate n b) = [a]"
  by (simp add: trim_def dropWhile_replicate_ws)

section \<open>The outcomes of \<open>add_task\<close>\<close>

text \<open>Every way \<open>add_task\<close> throws, with the store it leaves and the input that leads
  there.\<close>

lemma add_task_error_cases:
  assumes "add_task c p s = (s', Inl e)"
  shows "(e = ValidationError ''title is required'' \<and> s' = s
             \<and> (\<forall>t. p_title p = JStr t \<longrightarrow> t = []))
       \<or> (e = ValidationError ''title exceeds 140 characters'' \<and> s' = s
             \<and> (\<exists>t. p_title p = JStr t \<and> 140 < length t))
       \<or> (e = ValidationError ''desc exceeds 1000 characters'' \<and> s' = s
             \<and> (\<exists>t. p_title p = JStr t \<and> t \<noteq> [] \<and> length t \<le> 140)
             \<and> ((\<exists>d. p_desc p = JStr d \<and> 1000 < length d) \<or>
                (\<exists>xs. p_desc p = JArr xs \<and> 1000 < length xs)))
       \<or> (is_TypeError e \<and> s' = s \<and> p_desc p = JNull
             \<and> (\<exists>t. p_title p = JStr t \<and> t \<noteq> [] \<and> length t \<le> 140))
       \<or> (is_TypeError e \<and> s' = bump_seq s
             \<and> (\<exists>b n xs. p_desc p = JBool b \<or> p_desc p = JNum n \<or>
                         (p_desc p = JArr xs \<and> length xs \<le> 1000))
             \<and> (\<exists>t. p_title p = JStr t \<and> t \<noteq> [] \<and> length t \<le> 140))"
proof (cases "p_title p")
  case (JStr t)
  note t = this
  show ?thesis
  proof (cases "p_desc p")
    case JUndefined
    with t assms show ?thesis
      by (auto simp: add_task_def Let_def default_to_def increment_task_seq split: if_splits)
  next
    case JNull
    with t assms show ?thesis
      by (auto simp: add_task_def Let_def default_to_def increment_task_seq split: if_splits)
  next
    case (JBool b)
    with t assms show ?thesis
      by (auto simp: add_task_def Let_def default_to_def increment_task_seq split: if_splits)
  next
    case (JNum n)
    with t assms show ?thesis
      by (auto simp: add_task_def Let_def default_to_def increment_task_seq split: if_splits)
  next
    case (JStr d)
    with t assms show ?thesis
      by (auto simp: add_task_def Let_def default_to_def increment_task_seq split: if_splits)
  next
    case (JArr xs)
    with t assms show ?thesis
      by (auto simp: add_task_def Let_def default_to_def increment_task_seq split: if_splits)
  qed
qed (use assms in \<open>auto simp: add_task_def Let_def\<close>)

lemma add_task_ok:
  assumes "p_title p = JStr t" "t \<noteq> []" "length t \<le> 140"
    and "default_to (JStr []) (p_desc p) = JStr d" "length d \<le> 1000"
    and "tk = created_task c (Suc (seq s)) t d (default_to JNull (p_assignee p))"
  shows "add_task c p s =
           (created_store tk s,
            Inr \<lparr>success = True, r_id = JStr (id' tk), r_task = tk,
                 r_broadcast = \<lparr>n_type = ''task_update'', n_id = JStr (id' tk),
                                n_status = ''open''\<rparr>\<rparr>)"
  using assms
  by (simp add: add_task_def Let_def created_task_def created_store_def increment_task_seq)

lemma add_task_success_cases:
  assumes "add_task c p s = (s', Inr r)"
  shows "\<exists>t d. p_title p = JStr t \<and> t \<noteq> [] \<and> length t \<le> 140 \<and>
           default_to (JStr []) (p_desc p) = JStr d \<and> length d \<le> 1000"
proof (cases "p_title p")
  case (JStr t)
  with assms show ?thesis
    by (cases "p_desc p")
       (auto simp: add_task_def Let_def default_to_def increment_task_seq split: if_splits)
qed (use assms in \<open>auto simp: add_task_def Let_def\<close>)

lemma add_task_stores_result:
  assumes "add_task c p s = (s', Inr r)"
  shows "st_get (''task:'' @ id' (r_task r)) s' = Some (r_task r)"
proof -
  from add_task_success_cases[OF assms] obtain t d where
    td: "p_title p = JStr t" "t \<noteq> []" "length t \<le> 140"
        "default_to (JStr []) (p_desc p) = JStr d" "length d \<le> 1000" by blast
  from add_task_ok[OF td refl] assms show ?thesis
    by (auto simp: objects_created_store st_get_def)
qed

section \<open>Validation of \<open>add_task\<close>\<close>

text \<open>
  Claim C5.  \<open>add_task\<close> throws a validation error exactly when the title is not a string
  (which includes a missing title) or is the empty string, or the title has more than 140
  code units, or the desc is longer than 1000: a string of more than 1000 code units, or an
  array of more than 1000 elements, which \<^verbatim>\<open>desc.length > 1000\<close> rejects alike.  A title
  of 141 code units is rejected; a title of exactly 140 succeeds, whoever the signer is,
  when the desc is absent or a string within its limit.
\<close>

theorem add_task_validation:
  "((\<exists>m. snd (add_task c p s) = Inl (ValidationError m)) \<longleftrightarrow>
      (\<forall>t. p_title p \<noteq> JStr t) \<or> p_title p = JStr [] \<or>
      (\<exists>t. p_title p = JStr t \<and> 140 < length t) \<or>
      (\<exists>d. p_desc p = JStr d \<and> 1000 < length d) \<or>
      (\<exists>xs. p_desc p = JArr xs \<and> 1000 < length xs))
   \<and> (\<forall>t. p_title p = JStr t \<and> length t = 141 \<longrightarrow>
          add_task c p s = (s, Inl (ValidationError ''title exceeds 140 characters'')))
   \<and> (\<forall>t. p_title p = JStr t \<and> length t = 140 \<and>
          (p_desc p = JUndefined \<or> (\<exists>d. p_desc p = JStr d \<and> length d \<le> 1000)) \<longrightarrow>
          (\<exists>s' r. add_task c p s = (s', Inr r) \<and> success r))"
proof (intro conjI allI impI)
  show "(\<exists>m. snd (add_task c p s) = Inl (ValidationError m)) \<longleftrightarrow>
      (\<forall>t. p_title p \<noteq> JStr t) \<or> p_title p = JStr [] \<or>
      (\<exists>t. p_title p = JStr t \<and> 140 < length t) \<or>
      (\<exists>d. p_desc p = JStr d \<and> 1000 < length d) \<or>
      (\<exists>xs. p_desc p = JArr xs \<and> 1000 < length xs)" (is "?L \<longleftrightarrow> ?R")
  proof
    assume ?L
    then obtain m s' where "add_task c p s = (s', Inl (ValidationError m))"
      by (metis prod.collapse)
    from add_task_error_cases[OF this] show ?R by auto
  next
    assume R: ?R
    show ?L
    proof (cases "p_title p")
      case (JStr t)
      with R show ?thesis
        by (cases "p_desc p") (auto simp: add_task_def Let_def default_to_def)
    qed (auto simp: add_task_def Let_def)
  qed
next
  fix t assume "p_title p = JStr t \<and> length t = 141"
  then show "add_task c p s = (s, Inl (ValidationError ''title exceeds 140 characters''))"
    by (auto simp: add_task_def Let_def)
next
  fix t
  assume a: "p_title p = JStr t \<and> length t = 140 \<and>
          (p_desc p = JUndefined \<or> (\<exists>d. p_desc p = JStr d \<and> length d \<le> 1000))"
  then obtain d where d: "default_to (JStr []) (p_desc p) = JStr d" "length d \<le> 1000"
    by (auto simp: default_to_def)
  from a have t: "p_title p = JStr t" "t \<noteq> []" "length t \<le> 140" by auto
  from add_task_ok[OF t d refl]
  show "\<exists>s' r. add_task c p s = (s', Inr r) \<and> success r" by simp
qed

theorem add_task_validation_witness:
  "(\<exists>m. snd (add_task (ctx_of ''alice'' False 7) (titled (replicate 141 CHR ''x'')) empty_store)
         = Inl (ValidationError m))
   \<and> (\<exists>s' r. add_task (ctx_of ''alice'' False 7) (titled (replicate 140 CHR ''x'')) empty_store
         = (s', Inr r) \<and> success r)"
  using add_task_validation[of "ctx_of ''alice'' False 7"
          "titled (replicate 141 CHR ''x'')" empty_store]
        add_task_validation[of "ctx_of ''alice'' False 7"
          "titled (replicate 140 CHR ''x'')" empty_store]
  by (simp add: titled_def)

section \<open>Errors leave the store untouched\<close>

text \<open>
  Claim C8.  When \<open>add_task\<close>, \<open>complete_task\<close> or \<open>cancel_task\<close> throws one of its own
  errors (validation, not found, invalid state, authorization), the store it leaves is the
  store it was given: task objects, the counter \<open>task_seq\<close> and every set.
\<close>

theorem failed_transaction_leaves_store:
  "apply_op c op s = (s', Inl e) \<Longrightarrow> is_handler_error e \<Longrightarrow> s' = s"
proof (cases op)
  case (Add_task p)
  assume "apply_op c op s = (s', Inl e)" "is_handler_error e"
  with Add_task add_task_error_cases[of c p s s' e] show ?thesis
    by (cases e) auto
next
  case (Complete_task p)
  assume "apply_op c op s = (s', Inl e)" "is_handler_error e"
  with Complete_task show ?thesis
    by (auto simp: complete_task_def Let_def split: if_splits option.splits)
next
  case (Cancel_task p)
  assume "apply_op c op s = (s', Inl e)" "is_handler_error e"
  with Cancel_task show ?thesis
    by (auto simp: cancel_task_def Let_def split: if_splits option.splits)
qed

theorem failed_transaction_leaves_store_witness:
  "apply_op (ctx_of ''bob'' False 7) (Complete_task \<lparr>p_id = JStr ''task_000001''\<rparr>) empty_store
     = (empty_store, Inl (NotFoundError ''Task task_000001 not found''))"
  using failed_transaction_leaves_store[of "ctx_of ''bob'' False 7"
          "Complete_task \<lparr>p_id = JStr ''task_000001''\<rparr>" empty_store
          "fst (apply_op (ctx_of ''bob'' False 7)
                  (Complete_task \<lparr>p_id = JStr ''task_000001''\<rparr>) empty_store)"
          "NotFoundError ''Task task_000001 not found''"]
  by (simp add: complete_task_def st_get_def empty_store_def)

section \<open>Validation reads the untrimmed strings\<close>

text \<open>
  Claim C9.  A successful \<open>add_task\<close> has checked emptiness and the limits of 140 and 1000
  on the strings as given, and stores their trimmed forms.  So a title of three spaces
  passes and the stored title is empty; and a title of 141 code units, one letter followed
  by 140 spaces, is rejected although its trimmed form has length 1.
\<close>

theorem add_task_validates_untrimmed:
  "(\<forall>s' r. add_task c p s = (s', Inr r) \<longrightarrow>
      (\<exists>t d. p_title p = JStr t \<and> t \<noteq> [] \<and> length t \<le> 140 \<and>
             default_to (JStr []) (p_desc p) = JStr d \<and> length d \<le> 1000 \<and>
             title (r_task r) = trim t \<and> desc (r_task r) = trim d \<and>
             st_get (''task:'' @ id' (r_task r)) s' = Some (r_task r)))
   \<and> (\<exists>s' r. add_task c (titled ''   '') s = (s', Inr r) \<and> title (r_task r) = [] \<and>
          st_get (''task:'' @ id' (r_task r)) s' = Some (r_task r))
   \<and> (length (CHR ''a'' # replicate 140 CHR '' '') = 141 \<and>
      length (trim (CHR ''a'' # replicate 140 CHR '' '')) = 1 \<and>
      add_task c (titled (CHR ''a'' # replicate 140 CHR '' '')) s
        = (s, Inl (ValidationError ''title exceeds 140 characters'')))"
proof (intro conjI allI impI)
  fix s' r assume ok: "add_task c p s = (s', Inr r)"
  from add_task_success_cases[OF ok] obtain t d where
    td: "p_title p = JStr t" "t \<noteq> []" "length t \<le> 140"
        "default_to (JStr []) (p_desc p) = JStr d" "length d \<le> 1000" by blast
  from add_task_ok[OF td refl] ok
  have "title (r_task r) = trim t" "desc (r_task r) = trim d"
    by (auto simp: created_task_def)
  with td add_task_stores_result[OF ok]
  show "\<exists>t d. p_title p = JStr t \<and> t \<noteq> [] \<and> length t \<le> 140 \<and>
             default_to (JStr []) (p_desc p) = JStr d \<and> length d \<le> 1000 \<and>
             title (r_task r) = trim t \<and> desc (r_task r) = trim d \<and>
             st_get (''task:'' @ id' (r_task r)) s' = Some (r_task r)"
    by blast
next
  have "\<exists>s' r. add_task c (titled ''   '') s = (s', Inr r) \<and> title (r_task r) = []"
    using add_task_ok[of "titled ''   ''" "''   ''" "[]" _ c s, OF _ _ _ _ _ refl]
    by (simp add: titled_def default_to_def created_task_def trim_def is_ws_def)
  then show "\<exists>s' r. add_task c (titled ''   '') s = (s', Inr r) \<and> title (r_task r) = [] \<and>
          st_get (''task:'' @ id' (r_task r)) s' = Some (r_task r)"
    using add_task_stores_result by blast
next
  show "length (CHR ''a'' # replicate 140 CHR '' '') = 141" by simp
next
  show "length (trim (CHR ''a'' # replicate 140 CHR '' '')) = 1"
    by (simp add: trim_padded_right is_ws_def)
next
  show "add_task c (titled (CHR ''a'' # replicate 140 CHR '' '')) s
        = (s, Inl (ValidationError ''title exceeds 140 characters''))"
    by (simp add: add_task_def titled_def Let_def)
qed

theorem add_task_validates_untrimmed_witness:
  "\<exists>s' r. add_task (ctx_of ''alice'' False 7) (titled '' x '') empty_store = (s', Inr r) \<and>
      title (r_task r) = ''x'' \<and> st_get (''task:'' @ id' (r_task r)) s' = Some (r_task r)"
proof -
  obtain s' r where
    ok: "add_task (ctx_of ''alice'' False 7) (titled '' x '') empty_store = (s', Inr r)"
    using add_task_ok[of "titled '' x ''" "'' x ''" "[]" _ "ctx_of ''alice'' False 7"
            empty_store, OF _ _ _ _ _ refl]
    by (simp add: titled_def default_to_def)
  from add_task_validates_untrimmed[of "ctx_of ''alice'' False 7" "titled '' x ''" empty_store] ok
  show ?thesis by (auto simp: titled_def trim_def is_ws_def)
qed

section \<open>The desc parameter\<close>

text \<open>
  Claim C10.  With a valid title, \<open>add_task\<close> takes the empty-string default for the desc
  only when the desc is absent.  A desc of \<^verbatim>\<open>null\<close> faults on \<^verbatim>\<open>desc.length\<close>, and a
  boolean, a number or an array of at most 1000 elements passes the length check and faults
  on \<^verbatim>\<open>desc.trim()\<close>, after the counter was incremented.  Neither fault is a validation
  error.
\<close>

theorem add_task_desc_not_total:
  assumes "p_title p = JStr t" and "t \<noteq> []" and "length t \<le> 140"
  shows "(p_desc p = JUndefined \<longrightarrow>
            (\<exists>s' r. add_task c p s = (s', Inr r) \<and> desc (r_task r) = []))
       \<and> (p_desc p = JNull \<longrightarrow>
            add_task c p s =
              (s, Inl (TypeError ''Cannot read properties of null (reading 'length')'')))
       \<and> ((\<exists>b. p_desc p = JBool b) \<or> (\<exists>n. p_desc p = JNum n) \<or>
          (\<exists>xs. p_desc p = JArr xs \<and> length xs \<le> 1000) \<longrightarrow>
            add_task c p s = (bump_seq s, Inl (TypeError ''desc.trim is not a function'')))"
proof (intro conjI impI)
  assume u: "p_desc p = JUndefined"
  then have d: "default_to (JStr []) (p_desc p) = JStr []" "length ([]::string) \<le> 1000"
    by (simp_all add: default_to_def)
  from add_task_ok[OF assms d refl]
  show "\<exists>s' r. add_task c p s = (s', Inr r) \<and> desc (r_task r) = []"
    by (simp add: created_task_def trim_Nil)
next
  assume "p_desc p = JNull"
  with assms show "add_task c p s =
      (s, Inl (TypeError ''Cannot read properties of null (reading 'length')''))"
    by (simp add: add_task_def Let_def default_to_def)
next
  assume "(\<exists>b. p_desc p = JBool b) \<or> (\<exists>n. p_desc p = JNum n) \<or>
          (\<exists>xs. p_desc p = JArr xs \<and> length xs \<le> 1000)"
  with assms
  show "add_task c p s = (bump_seq s, Inl (TypeError ''desc.trim is not a function''))"
    by (auto simp: add_task_def Let_def default_to_def increment_task_seq)
qed

theorem add_task_desc_not_total_witness:
  "add_task (ctx_of ''alice'' False 7)
      \<lparr>p_title = JStr ''x'', p_desc = JNull, p_assignee = JUndefined\<rparr> empty_store
     = (empty_store, Inl (TypeError ''Cannot read properties of null (reading 'length')''))
   \<and> add_task (ctx_of ''alice'' False 7)
      \<lparr>p_title = JStr ''x'', p_desc = JNum 5, p_assignee = JUndefined\<rparr> empty_store
     = (bump_seq empty_store, Inl (TypeError ''desc.trim is not a function''))
   \<and> seq (bump_seq empty_store) = 1 \<and> seq empty_store = 0"
  using add_task_desc_not_total[of
          "\<lparr>p_title = JStr ''x'', p_desc = JNull, p_assignee = JUndefined\<rparr>" "''x''"
          "ctx_of ''alice'' False 7" empty_store]
        add_task_desc_not_total[of
          "\<lparr>p_title = JStr ''x'', p_desc = JNum 5, p_assignee = JUndefined\<rparr>" "''x''"
          "ctx_of ''alice'' False 7" empty_store]
  by (simp add: seq_def bump_seq_def empty_store_def)

section \<open>Task ids determine their sequence number\<close>

lemma of_char_digit_char:
  assumes "d < 10"
  shows "of_char (digit_char d) = 48 + d"
proof -
  from assms have "d \<in> {0, 1, 2, 3, 4, 5, 6, 7, 8, 9}" by auto
  then show ?thesis by (auto simp: digit_char_def)
qed

lemma digit_val_digit_char: "d < 10 \<Longrightarrow> digit_val (digit_char d) = d"
  by (simp add: digit_val_def of_char_digit_char)

lemma digits_value_snoc: "digits_value (cs @ [c]) = 10 * digits_value cs + digit_val c"
  by (simp add: digits_value_def)

lemma digits_value_string_of_nat: "digits_value (string_of_nat n) = n"
proof (induction n rule: string_of_nat.induct)
  case (1 n)
  show ?case
  proof (cases "n < 10")
    case True
    then show ?thesis
      by (subst string_of_nat.simps) (simp add: digits_value_def digit_val_digit_char)
  next
    case False
    with 1 show ?thesis
      by (subst string_of_nat.simps) (simp add: digits_value_snoc digit_val_digit_char)
  qed
qed

lemma foldl_zeros:
  "foldl (\<lambda>a c. 10 * a + digit_val c) 0 (replicate k CHR ''0'' @ cs)
     = foldl (\<lambda>a c. 10 * a + digit_val c) 0 cs"
  by (induction k) (simp_all add: digit_val_def)

lemma digits_value_padStart: "digits_value (padStart k CHR ''0'' cs) = digits_value cs"
  unfolding padStart_def digits_value_def by (rule foldl_zeros)

lemma seq_of_taskId: "seq_of_id (taskId_of n) = n"
  by (simp add: seq_of_id_def taskId_of_def digits_value_padStart digits_value_string_of_nat)

lemma taskId_of_inject: "taskId_of m = taskId_of n \<longleftrightarrow> m = n"
  by (metis seq_of_taskId)

lemma string_of_nat_not_Nil: "string_of_nat n \<noteq> []"
  by (subst string_of_nat.simps) simp

lemma taskId_not_Nil: "taskId_of n \<noteq> []"
  by (simp add: taskId_of_def)

section \<open>Store operations, componentwise\<close>

lemma members_sadd:
  "members k (sadd k' m s) =
     (if k = k' \<and> m \<notin> set (members k s) then members k s @ [m] else members k s)"
  by (auto simp: members_def smembers_def sadd_def split: option.splits)

lemma members_srem:
  "members k (srem k' m s) = (if k = k' then removeAll m (members k s) else members k s)"
  by (auto simp: members_def smembers_def srem_def split: option.splits)

lemma members_st_set [simp]: "members k (st_set k' v s) = members k s"
  by (simp add: members_def smembers_def st_set_def)

lemma members_bump_seq [simp]: "members k (bump_seq s) = members k s"
  by (simp add: members_def smembers_def bump_seq_def)

lemma set_members_sadd:
  "set (members k (sadd k' m s)) =
     (if k = k' then insert m (set (members k s)) else set (members k s))"
  by (auto simp: members_sadd)

lemma distinct_members_sadd:
  "distinct (members k (sadd k' m s)) = distinct (members k s)"
  by (auto simp: members_sadd)

lemma set_members_srem:
  "set (members k (srem k' m s)) =
     (if k = k' then set (members k s) - {m} else set (members k s))"
  by (auto simp: members_srem)

lemma distinct_members_srem:
  "distinct (members k s) \<Longrightarrow> distinct (members k (srem k' m s))"
  by (auto simp: members_srem distinct_removeAll)

lemma seq_sadd [simp]: "seq (sadd k m s) = seq s"
  by (simp add: seq_def sadd_def split: option.splits)

lemma seq_srem [simp]: "seq (srem k m s) = seq s"
  by (simp add: seq_def srem_def split: option.splits)

lemma seq_st_set [simp]: "seq (st_set k v s) = seq s"
  by (simp add: seq_def st_set_def)

lemma seq_bump_seq [simp]: "seq (bump_seq s) = Suc (seq s)"
  by (simp add: seq_def bump_seq_def)

lemma seq_created_store [simp]: "seq (created_store tk s) = Suc (seq s)"
  by (simp add: created_store_def Let_def)

lemma set_members_created_store:
  "set (members k (created_store tk s)) =
     (if k = ''tasks:all'' \<or> k = ''tasks:open'' \<or>
         (truthy (assignee tk) \<and> k = ''tasks:assignee:'' @ to_string (assignee tk))
      then insert (JStr (id' tk)) (set (members k s)) else set (members k s))"
  by (simp add: created_store_def Let_def set_members_sadd)

lemma distinct_members_created_store:
  "distinct (members k (created_store tk s)) = distinct (members k s)"
  by (simp add: created_store_def Let_def distinct_members_sadd)

lemma store_inv_empty: "store_inv empty_store"
  by (simp add: store_inv_def empty_store_def members_def smembers_def)

section \<open>The store invariant\<close>

lemma store_inv_bump_seq:
  assumes "store_inv s"
  shows "store_inv (bump_seq s)"
proof -
  have "\<exists>n. 0 < n \<and> n \<le> Suc (seq s) \<and> id' t = taskId_of n"
    if "objects s k = Some t" for k t
  proof -
    from assms that obtain n where "0 < n" "n \<le> seq s" "id' t = taskId_of n"
      unfolding store_inv_def by blast
    then show ?thesis by (intro exI[of _ n]) simp
  qed
  with assms show ?thesis
    unfolding store_inv_def by simp
qed

lemma inv_key:
  "store_inv s \<Longrightarrow> objects s k = Some t \<Longrightarrow> k = ''task:'' @ id' t"
  unfolding store_inv_def by blast

lemma inv_fresh_key:
  assumes "store_inv s"
  shows "objects s (''task:'' @ taskId_of (Suc (seq s))) = None"
proof (rule ccontr)
  assume "objects s (''task:'' @ taskId_of (Suc (seq s))) \<noteq> None"
  then obtain t where t: "objects s (''task:'' @ taskId_of (Suc (seq s))) = Some t" by auto
  with assms obtain n where "''task:'' @ taskId_of (Suc (seq s)) = ''task:'' @ id' t"
    "n \<le> seq s" "id' t = taskId_of n"
    unfolding store_inv_def by blast
  then show False by (simp add: taskId_of_inject)
qed

lemma inv_string_id:
  assumes "store_inv s" and "objects s (''task:'' @ i) = Some t"
  shows "i = id' t \<and> i \<noteq> []"
proof -
  from assms obtain n where "''task:'' @ i = ''task:'' @ id' t" "id' t = taskId_of n"
    unfolding store_inv_def by blast
  then show ?thesis by (simp add: taskId_not_Nil)
qed

lemma store_inv_created:
  assumes inv: "store_inv s" and tk: "id' tk = taskId_of (Suc (seq s))" "status tk = Open"
  shows "store_inv (created_store tk s)"
proof -
  let ?s' = "created_store tk s"
  have fresh: "objects s (''task:'' @ id' tk) = None"
    using inv_fresh_key[OF inv] tk by simp
  have obj: "objects ?s' (''task:'' @ i) = (if i = id' tk then Some tk else objects s (''task:'' @ i))"
    for i by (simp add: objects_created_store)
  have 1: "k = ''task:'' @ id' t \<and> (\<exists>n. 0 < n \<and> n \<le> seq ?s' \<and> id' t = taskId_of n)"
    if "objects ?s' k = Some t" for k t
  proof -
    show ?thesis
    proof (cases "k = ''task:'' @ id' tk")
      case True
      with that have "t = tk" by (simp add: objects_created_store)
      with True tk show ?thesis by (intro conjI exI[of _ "Suc (seq s)"]) simp_all
    next
      case False
      with that have "objects s k = Some t" by (simp add: objects_created_store)
      with inv obtain n where "k = ''task:'' @ id' t" "0 < n" "n \<le> seq s" "id' t = taskId_of n"
        unfolding store_inv_def by blast
      then show ?thesis by (intro conjI exI[of _ n]) simp_all
    qed
  qed
  from inv have 2: "distinct (members ''tasks:all'' ?s')"
    by (simp add: distinct_members_created_store store_inv_def)
  have R: "(\<exists>i t. v = JStr i \<and> objects ?s' (''task:'' @ i) = Some t \<and> P t) \<longleftrightarrow>
           (P tk \<and> v = JStr (id' tk)) \<or>
           (\<exists>i t. v = JStr i \<and> objects s (''task:'' @ i) = Some t \<and> P t)"
    (is "?A \<longleftrightarrow> ?B \<or> ?C") for v P
  proof
    assume ?A
    then obtain i t where it: "v = JStr i" "objects ?s' (''task:'' @ i) = Some t" "P t" by blast
    show "?B \<or> ?C"
    proof (cases "i = id' tk")
      case True
      with it obj[of i] show ?thesis by simp
    next
      case False
      with it obj[of i] have "objects s (''task:'' @ i) = Some t" by simp
      with it show ?thesis by blast
    qed
  next
    assume "?B \<or> ?C"
    then show ?A
    proof
      assume ?B
      with obj[of "id' tk"] show ?A by auto
    next
      assume ?C
      then obtain i t where it: "v = JStr i" "objects s (''task:'' @ i) = Some t" "P t" by blast
      with fresh have "i \<noteq> id' tk" by auto
      with it obj[of i] show ?A by auto
    qed
  qed
  from inv have all: "v \<in> set (members ''tasks:all'' s) \<longleftrightarrow>
          (\<exists>i t. v = JStr i \<and> objects s (''task:'' @ i) = Some t)" for v
    unfolding store_inv_def by blast
  have 3: "v \<in> set (members ''tasks:all'' ?s') \<longleftrightarrow>
          (\<exists>i t. v = JStr i \<and> objects ?s' (''task:'' @ i) = Some t)" for v
    using R[of v "\<lambda>t. True"] all[of v] by (simp add: set_members_created_store)
  from inv have 4: "distinct (members (status_key st) ?s')" for st
    by (simp add: distinct_members_created_store store_inv_def)
  from inv have sts: "v \<in> set (members (status_key st) s) \<longleftrightarrow>
          (\<exists>i t. v = JStr i \<and> objects s (''task:'' @ i) = Some t \<and> status t = st)" for st v
    unfolding store_inv_def by blast
  have L: "v \<in> set (members (status_key st) ?s') \<longleftrightarrow>
          (st = Open \<and> v = JStr (id' tk)) \<or> v \<in> set (members (status_key st) s)" for st v
    by (cases st) (auto simp: set_members_created_store status_key_def)
  have 5: "v \<in> set (members (status_key st) ?s') \<longleftrightarrow>
          (\<exists>i t. v = JStr i \<and> objects ?s' (''task:'' @ i) = Some t \<and> status t = st)" for st v
    unfolding L R[of v "\<lambda>t. status t = st"] sts[of v st] using tk by auto
  from 1 2 3 4 5 show ?thesis unfolding store_inv_def by blast
qed

lemma objects_moved_store:
  "objects (moved_store dest v t1 s) = (objects s)(''task:'' @ to_string v \<mapsto> t1)"
  by (simp add: moved_store_def)

lemma seq_moved_store [simp]: "seq (moved_store dest v t1 s) = seq s"
  by (simp add: moved_store_def)

lemma set_members_moved_store:
  "dest \<noteq> ''tasks:open'' \<Longrightarrow>
   set (members k (moved_store dest v t1 s)) =
     (if k = dest then insert v (set (members k s))
      else if k = ''tasks:open'' then set (members k s) - {v}
      else set (members k s))"
  by (simp add: moved_store_def set_members_sadd set_members_srem)

lemma distinct_members_moved_store:
  "distinct (members k s) \<Longrightarrow> distinct (members k (moved_store dest v t1 s))"
  by (simp add: moved_store_def distinct_members_sadd distinct_members_srem)

lemma store_inv_moved:
  assumes inv: "store_inv s"
    and t: "objects s (''task:'' @ to_string v) = Some t" "status t = Open"
    and t1: "id' t1 = id' t" "status t1 = st1" "st1 \<noteq> Open"
    and str: "v = JStr i"
  shows "store_inv (moved_store (status_key st1) v t1 s)"
proof -
  let ?s' = "moved_store (status_key st1) v t1 s"
  from t(1) str inv_string_id[OF inv, of i t] have v: "v = JStr (id' t)" by simp
  have dest: "status_key st1 \<noteq> ''tasks:open''" "status_key st1 \<noteq> ''tasks:all''"
    using t1(3) by (cases st1; simp add: status_key_def)+
  have obj: "objects ?s' (''task:'' @ i) = (if i = id' t then Some t1 else objects s (''task:'' @ i))"
    for i by (simp add: objects_moved_store v)
  have 1: "k = ''task:'' @ id' u \<and> (\<exists>n. 0 < n \<and> n \<le> seq ?s' \<and> id' u = taskId_of n)"
    if "objects ?s' k = Some u" for k u
  proof (cases "k = ''task:'' @ id' t")
    case True
    with that have "u = t1" by (simp add: objects_moved_store v)
    moreover from inv t(1) obtain n where "0 < n" "n \<le> seq s" "id' t = taskId_of n"
      unfolding store_inv_def by blast
    ultimately show ?thesis using True t1(1) by (intro conjI exI[of _ n]) simp_all
  next
    case False
    with that have "objects s k = Some u" by (simp add: objects_moved_store v)
    with inv obtain n where "k = ''task:'' @ id' u" "0 < n" "n \<le> seq s" "id' u = taskId_of n"
      unfolding store_inv_def by blast
    then show ?thesis by (intro conjI exI[of _ n]) simp_all
  qed
  from inv have 2: "distinct (members ''tasks:all'' ?s')"
    by (simp add: distinct_members_moved_store store_inv_def)
  from inv have 4: "distinct (members (status_key st) ?s')" for st
    by (simp add: distinct_members_moved_store store_inv_def)
  from inv have all: "w \<in> set (members ''tasks:all'' s) \<longleftrightarrow>
          (\<exists>i u. w = JStr i \<and> objects s (''task:'' @ i) = Some u)" for w
    unfolding store_inv_def by blast
  from inv have sts: "w \<in> set (members (status_key st) s) \<longleftrightarrow>
          (\<exists>i u. w = JStr i \<and> objects s (''task:'' @ i) = Some u \<and> status u = st)" for st w
    unfolding store_inv_def by blast
  have told: "objects s (''task:'' @ id' t) = Some t"
    using t(1) v by simp
  have R: "(\<exists>i u. w = JStr i \<and> objects ?s' (''task:'' @ i) = Some u \<and> P u) \<longleftrightarrow>
           (P t1 \<and> w = JStr (id' t)) \<or>
           (\<exists>i u. w = JStr i \<and> i \<noteq> id' t \<and> objects s (''task:'' @ i) = Some u \<and> P u)"
    (is "?A \<longleftrightarrow> ?B \<or> ?C") for w P
  proof
    assume ?A
    then obtain i u where iu: "w = JStr i" "objects ?s' (''task:'' @ i) = Some u" "P u" by blast
    show "?B \<or> ?C"
    proof (cases "i = id' t")
      case True
      with iu obj[of i] show ?thesis by simp
    next
      case False
      with iu obj[of i] have "objects s (''task:'' @ i) = Some u" by simp
      with iu False show ?thesis by blast
    qed
  next
    assume "?B \<or> ?C"
    then show ?A
    proof
      assume ?B
      with obj[of "id' t"] show ?A by auto
    next
      assume ?C
      then obtain i u where iu: "w = JStr i" "i \<noteq> id' t" "objects s (''task:'' @ i) = Some u" "P u"
        by blast
      with obj[of i] show ?A by auto
    qed
  qed
  have Q: "(\<exists>i u. w = JStr i \<and> i \<noteq> id' t \<and> objects s (''task:'' @ i) = Some u \<and> P u) \<longleftrightarrow>
           (\<exists>i u. w = JStr i \<and> objects s (''task:'' @ i) = Some u \<and> P u) \<and>
           (w = JStr (id' t) \<longrightarrow> \<not> P t)" for w P
    using told by auto
  have mall: "set (members ''tasks:all'' ?s') = set (members ''tasks:all'' s)"
    using dest by (simp add: set_members_moved_store)
  have 3: "w \<in> set (members ''tasks:all'' ?s') \<longleftrightarrow>
          (\<exists>i u. w = JStr i \<and> objects ?s' (''task:'' @ i) = Some u)" for w
  proof -
    have "(\<exists>i u. w = JStr i \<and> objects ?s' (''task:'' @ i) = Some u) \<longleftrightarrow>
          (\<exists>i u. w = JStr i \<and> objects s (''task:'' @ i) = Some u)"
      using R[of w "\<lambda>u. True"] Q[of w "\<lambda>u. True"] told by auto
    then show ?thesis using mall all[of w] by simp
  qed
  have L: "w \<in> set (members (status_key st) ?s') \<longleftrightarrow>
          (if st = st1 then w = v \<or> w \<in> set (members (status_key st) s)
           else if st = Open then w \<in> set (members (status_key st) s) \<and> w \<noteq> v
           else w \<in> set (members (status_key st) s))" for st w
    using dest(1) by (cases st; cases st1) (auto simp: set_members_moved_store status_key_def)
  have 5: "w \<in> set (members (status_key st) ?s') \<longleftrightarrow>
          (\<exists>i u. w = JStr i \<and> objects ?s' (''task:'' @ i) = Some u \<and> status u = st)" for st w
    unfolding L R[of w "\<lambda>u. status u = st"] Q[of w "\<lambda>u. status u = st"] sts[of w st]
    using t1 t(2) v by auto
  from 1 2 3 4 5 show ?thesis unfolding store_inv_def by blast
qed

lemma complete_task_success_cases:
  assumes "complete_task c p s = (s', Inr r)"
  shows "\<exists>t. truthy (p_id p) \<and> st_get (''task:'' @ to_string (p_id p)) s = Some t \<and>
           status t = Open \<and> (creator t = signer c \<or> assignee t = JStr (signer c)) \<and>
           r_task r = t\<lparr>status := Completed, updated_at := now c 0,
                        completed_by := Some (signer c)\<rparr> \<and>
           r_id r = p_id p \<and>
           s' = moved_store ''tasks:completed'' (p_id p) (r_task r) s"
  using assms
  by (auto simp: complete_task_def Let_def moved_store_def split: if_splits option.splits)

lemma cancel_task_success_cases:
  assumes "cancel_task c p s = (s', Inr r)"
  shows "\<exists>t. truthy (p_id p) \<and> st_get (''task:'' @ to_string (p_id p)) s = Some t \<and>
           status t = Open \<and> (creator t = signer c \<or> isAdmin c (signer c)) \<and>
           r_task r = t\<lparr>status := Cancelled, updated_at := now c 0,
                        cancelled_by := Some (signer c)\<rparr> \<and>
           r_id r = p_id p \<and>
           s' = moved_store ''tasks:cancelled'' (p_id p) (r_task r) s"
  using assms
  by (auto simp: cancel_task_def Let_def moved_store_def split: if_splits option.splits)

lemma add_task_success_store:
  assumes "add_task c p s = (s', Inr r)"
  shows "s' = created_store (r_task r) s \<and> id' (r_task r) = taskId_of (Suc (seq s)) \<and>
         status (r_task r) = Open \<and> r_id r = JStr (id' (r_task r))"
proof -
  from add_task_success_cases[OF assms] obtain t d where
    td: "p_title p = JStr t" "t \<noteq> []" "length t \<le> 140"
        "default_to (JStr []) (p_desc p) = JStr d" "length d \<le> 1000" by blast
  from add_task_ok[OF td refl] assms show ?thesis
    by (auto simp: created_task_def)
qed

lemma apply_op_error_store:
  assumes "apply_op c op s = (s', Inl e)"
  shows "s' = s \<or> s' = bump_seq s"
proof (cases op)
  case (Add_task p)
  with assms add_task_error_cases[of c p s s' e] show ?thesis by auto
next
  case (Complete_task p)
  with assms show ?thesis
    by (auto simp: complete_task_def Let_def split: if_splits option.splits)
next
  case (Cancel_task p)
  with assms show ?thesis
    by (auto simp: cancel_task_def Let_def split: if_splits option.splits)
qed

lemma store_inv_apply_op:
  assumes inv: "store_inv s" and ap: "apply_op c op s = (s', res)" and str: "string_id op"
  shows "store_inv s'"
proof (cases res)
  case (Inl e)
  with ap apply_op_error_store[of c op s s' e] inv store_inv_bump_seq[OF inv]
  show ?thesis by auto
next
  case (Inr r)
  show ?thesis
  proof (cases op)
    case (Add_task p)
    with ap Inr have "add_task c p s = (s', Inr r)" by simp
    from add_task_success_store[OF this] store_inv_created[OF inv, of "r_task r"]
    show ?thesis by simp
  next
    case (Complete_task p)
    with ap Inr have "complete_task c p s = (s', Inr r)" by simp
    from complete_task_success_cases[OF this] obtain t where
      t: "objects s (''task:'' @ to_string (p_id p)) = Some t" "status t = Open"
         "r_task r = t\<lparr>status := Completed, updated_at := now c 0,
                        completed_by := Some (signer c)\<rparr>"
         "s' = moved_store ''tasks:completed'' (p_id p) (r_task r) s"
      by (auto simp: st_get_def)
    from str Complete_task obtain i where "p_id p = JStr i" by (cases "p_id p") auto
    from store_inv_moved[OF inv t(1,2) _ _ _ this, of "r_task r" Completed] t(3,4)
    show ?thesis by (simp add: status_key_def)
  next
    case (Cancel_task p)
    with ap Inr have "cancel_task c p s = (s', Inr r)" by simp
    from cancel_task_success_cases[OF this] obtain t where
      t: "objects s (''task:'' @ to_string (p_id p)) = Some t" "status t = Open"
         "r_task r = t\<lparr>status := Cancelled, updated_at := now c 0,
                        cancelled_by := Some (signer c)\<rparr>"
         "s' = moved_store ''tasks:cancelled'' (p_id p) (r_task r) s"
      by (auto simp: st_get_def)
    from str Cancel_task obtain i where "p_id p = JStr i" by (cases "p_id p") auto
    from store_inv_moved[OF inv t(1,2) _ _ _ this, of "r_task r" Cancelled] t(3,4)
    show ?thesis by (simp add: status_key_def)
  qed
qed

lemma store_inv_run:
  "store_inv s \<Longrightarrow> list_all (\<lambda>(c, op). string_id op) ops \<Longrightarrow> store_inv (run ops s)"
proof (induction ops arbitrary: s)
  case Nil
  then show ?case by simp
next
  case (Cons a ops)
  obtain c op where a: "a = (c, op)" by (cases a)
  with Cons.prems have str: "string_id op" and rest: "list_all (\<lambda>(c, op). string_id op) ops"
    by simp_all
  have "apply_op c op s = (fst (apply_op c op s), snd (apply_op c op s))" by simp
  from store_inv_apply_op[OF Cons.prems(1) this str]
  have "store_inv (fst (apply_op c op s))" .
  from Cons.IH[OF this rest] a show ?case by simp
qed

lemma stats_partition:
  assumes inv: "store_inv s"
  shows "length (members ''tasks:all'' s) =
           length (members ''tasks:open'' s) + length (members ''tasks:completed'' s)
           + length (members ''tasks:cancelled'' s)"
proof -
  let ?A = "set (members ''tasks:all'' s)"
  let ?S = "\<lambda>st. set (members (status_key st) s)"
  from inv have all: "w \<in> ?A \<longleftrightarrow> (\<exists>i u. w = JStr i \<and> objects s (''task:'' @ i) = Some u)" for w
    unfolding store_inv_def by blast
  from inv have sts: "w \<in> ?S st \<longleftrightarrow>
          (\<exists>i u. w = JStr i \<and> objects s (''task:'' @ i) = Some u \<and> status u = st)" for st w
    unfolding store_inv_def by blast
  from inv have d: "distinct (members ''tasks:all'' s)" "\<And>st. distinct (members (status_key st) s)"
    unfolding store_inv_def by blast+
  have un: "?A = ?S Open \<union> ?S Completed \<union> ?S Cancelled"
  proof (intro set_eqI iffI)
    fix w assume "w \<in> ?A"
    then obtain i u where iu: "w = JStr i" "objects s (''task:'' @ i) = Some u"
      unfolding all by blast
    then have "w \<in> ?S (status u)" unfolding sts by blast
    then show "w \<in> ?S Open \<union> ?S Completed \<union> ?S Cancelled"
      by (cases "status u") auto
  next
    fix w assume "w \<in> ?S Open \<union> ?S Completed \<union> ?S Cancelled"
    then have "w \<in> ?S Open \<or> w \<in> ?S Completed \<or> w \<in> ?S Cancelled" by blast
    then show "w \<in> ?A" using all[of w] sts[of w] by blast
  qed
  have dj: "st \<noteq> st' \<Longrightarrow> ?S st \<inter> ?S st' = {}" for st st'
  proof -
    assume ne: "st \<noteq> st'"
    have False if "w \<in> ?S st" "w \<in> ?S st'" for w
      using that(1)[unfolded sts] that(2)[unfolded sts] ne by auto
    then show ?thesis by blast
  qed
  have "card ?A = card (?S Open) + card (?S Completed) + card (?S Cancelled)"
    unfolding un
    using dj[of Open Completed] dj[of Open Cancelled] dj[of Completed Cancelled]
    by (subst card_Un_disjoint; (subst card_Un_disjoint)?; auto)
  with d(1) d(2)[of Open] d(2)[of Completed] d(2)[of Cancelled]
  show ?thesis by (simp add: distinct_card status_key_def)
qed

section \<open>An example store\<close>

lemma taskId_of_1: "taskId_of (Suc 0) = ''task_000001''"
  by (simp add: taskId_of_def padStart_def string_of_nat.simps digit_char_def numeral_eq_Suc)

lemma seq_empty_store: "seq empty_store = 0"
  by (simp add: seq_def empty_store_def)

lemma first_store_eq:
  "first_store = created_store
     (created_task (ctx_of ''alice'' False 7) (Suc 0) ''Write spec'' [] (JStr ''bob'')) empty_store"
  unfolding first_store_def
  by (subst add_task_ok[where t = "''Write spec''" and d = "[]", OF _ _ _ _ _ refl])
     (simp_all add: default_to_def seq_empty_store)

lemma first_store_task:
  "st_get ''task:task_000001'' first_store =
     Some \<lparr>id' = ''task_000001'', title = ''Write spec'', desc = [], assignee = JStr ''bob'',
           creator = ''alice'', status = Open, created_at = 7, updated_at = 7,
           completed_by = None, cancelled_by = None\<rparr>"
  by (simp add: first_store_eq st_get_def objects_created_store created_task_def taskId_of_1
                ctx_of_def trim_def is_ws_def)

lemma members_empty_store: "members k empty_store = []"
  by (simp add: members_def smembers_def empty_store_def)

lemma first_store_members:
  "members ''tasks:assignee:bob'' first_store = [JStr ''task_000001'']"
  "members ''tasks:open'' first_store = [JStr ''task_000001'']"
  "members ''tasks:all'' first_store = [JStr ''task_000001'']"
  "members ''tasks:completed'' first_store = []"
  "members ''tasks:cancelled'' first_store = []"
  by (simp_all add: first_store_eq created_store_def created_task_def Let_def taskId_of_1
        members_sadd members_empty_store)

lemma store_inv_first_store: "store_inv first_store"
  unfolding first_store_eq
  by (rule store_inv_created[OF store_inv_empty])
     (simp_all add: created_task_def seq_empty_store)

section \<open>Index consistency, and the id given as an array\<close>

lemma objects_apply_op_persist:
  assumes "objects s k = Some t"
  shows "\<exists>t'. objects (fst (apply_op c op s)) k = Some t'"
proof (cases "apply_op c op s")
  case (Pair s' res)
  show ?thesis
  proof (cases res)
    case (Inl e)
    with Pair apply_op_error_store[of c op s s' e] assms show ?thesis by auto
  next
    case (Inr r)
    show ?thesis
    proof (cases op)
      case (Add_task p)
      with Pair Inr add_task_success_store[of c p s s' r] assms show ?thesis
        by (simp add: objects_created_store)
    next
      case (Complete_task p)
      with Pair Inr complete_task_success_cases[of c p s s' r] assms show ?thesis
        by (auto simp: objects_moved_store)
    next
      case (Cancel_task p)
      with Pair Inr cancel_task_success_cases[of c p s s' r] assms show ?thesis
        by (auto simp: objects_moved_store)
    qed
  qed
qed

lemma objects_run_persist:
  "objects s k = Some t \<Longrightarrow> \<exists>t'. objects (run ops s) k = Some t'"
proof (induction ops arbitrary: s t)
  case Nil
  then show ?case by simp
next
  case (Cons a ops)
  obtain c op where a: "a = (c, op)" by (cases a)
  from objects_apply_op_persist[OF Cons.prems, of c op]
  obtain t1 where "objects (fst (apply_op c op s)) k = Some t1" by blast
  from Cons.IH[OF this] a show ?case by simp
qed

lemma added_ids_present:
  "v \<in> set (added_ids ops s) \<Longrightarrow> \<exists>i t. v = JStr i \<and> objects (run ops s) (''task:'' @ i) = Some t"
proof (induction ops arbitrary: s)
  case Nil
  then show ?case by simp
next
  case (Cons a ops)
  obtain c op where a: "a = (c, op)" by (cases a)
  show ?case
  proof (cases op)
    case (Add_task p)
    obtain s1 res where r: "add_task c p s = (s1, res)" by (cases "add_task c p s")
    show ?thesis
    proof (cases res)
      case (Inl e)
      with Cons.prems a Add_task r have "v \<in> set (added_ids ops s1)" by simp
      from Cons.IH[OF this] a Add_task r show ?thesis by simp
    next
      case (Inr x)
      with Cons.prems a Add_task r
      consider "v = r_id x" | "v \<in> set (added_ids ops s1)" by auto
      then show ?thesis
      proof cases
        case 1
        from add_task_success_store[OF r[unfolded Inr]] add_task_stores_result[OF r[unfolded Inr]]
        have "r_id x = JStr (id' (r_task x))"
          "objects s1 (''task:'' @ id' (r_task x)) = Some (r_task x)"
          by (simp_all add: st_get_def)
        with 1 objects_run_persist[of s1 "''task:'' @ id' (r_task x)" "r_task x" ops]
        show ?thesis using a Add_task r by auto
      next
        case 2
        from Cons.IH[OF this] a Add_task r show ?thesis by simp
      qed
    qed
  next
    case (Complete_task p)
    with Cons.prems a have "v \<in> set (added_ids ops (fst (apply_op c op s)))" by simp
    from Cons.IH[OF this] a show ?thesis by simp
  next
    case (Cancel_task p)
    with Cons.prems a have "v \<in> set (added_ids ops (fst (apply_op c op s)))" by simp
    from Cons.IH[OF this] a show ?thesis by simp
  qed
qed

lemma reachable_run: "reachable s \<Longrightarrow> reachable (run ops s)"
proof (induction ops arbitrary: s)
  case Nil
  then show ?case by simp
next
  case (Cons a ops)
  obtain c op where a: "a = (c, op)" by (cases a)
  have "apply_op c op s = (fst (apply_op c op s), snd (apply_op c op s))" by simp
  with Cons.prems have "reachable (fst (apply_op c op s))" by (rule reachable.step)
  from Cons.IH[OF this] a show ?case by simp
qed

text \<open>
  The store after a log of operations whose id parameters are strings is consistent: every
  id that a successful \<open>add_task\<close> returned is the id of a task object; every task object
  lies under the key of its id, its id is a member of \<^verbatim>\<open>tasks:all\<close> and of the set of a
  status exactly when that is its status; and the counts of \<open>stats\<close> add up.
\<close>

lemma string_id_log_consistency:
  assumes str: "list_all (\<lambda>(c, op). string_id op) ops"
  shows "(\<forall>v\<in>set (added_ids ops empty_store).
       \<exists>t. v = JStr (id' t) \<and> st_get (''task:'' @ id' t) (run ops empty_store) = Some t)
   \<and> (\<forall>k t. objects (run ops empty_store) k = Some t \<longrightarrow>
          k = ''task:'' @ id' t \<and>
          JStr (id' t) \<in> set (members ''tasks:all'' (run ops empty_store)) \<and>
          (\<forall>st. JStr (id' t) \<in> set (members (''tasks:'' @ status_name st) (run ops empty_store))
                  \<longleftrightarrow> st = status t))
   \<and> total (stats (run ops empty_store))
       = open (stats (run ops empty_store)) + completed (stats (run ops empty_store))
         + cancelled (stats (run ops empty_store))"
proof (intro conjI allI impI ballI)
  let ?s = "run ops empty_store"
  have inv: "store_inv ?s" using store_inv_empty str by (rule store_inv_run)
  show "total (stats ?s) = open (stats ?s) + completed (stats ?s) + cancelled (stats ?s)"
    using stats_partition[OF inv] by (simp add: stats_def)
  {
    fix v assume "v \<in> set (added_ids ops empty_store)"
    from added_ids_present[OF this] obtain i t where
      it: "v = JStr i" "objects ?s (''task:'' @ i) = Some t" by blast
    from inv_key[OF inv it(2)] have "i = id' t" by simp
    with it show "\<exists>t. v = JStr (id' t) \<and> st_get (''task:'' @ id' t) ?s = Some t"
      by (auto simp: st_get_def)
  }
  fix k t assume kt: "objects ?s k = Some t"
  from inv_key[OF inv kt] show k: "k = ''task:'' @ id' t" .
  from inv have all: "w \<in> set (members ''tasks:all'' ?s) \<longleftrightarrow>
      (\<exists>i u. w = JStr i \<and> objects ?s (''task:'' @ i) = Some u)" for w
    unfolding store_inv_def by blast
  from inv have sts: "w \<in> set (members (status_key st) ?s) \<longleftrightarrow>
          (\<exists>i u. w = JStr i \<and> objects ?s (''task:'' @ i) = Some u \<and> status u = st)" for st w
    unfolding store_inv_def by blast
  from kt k have told: "objects ?s (''task:'' @ id' t) = Some t" by simp
  then show "JStr (id' t) \<in> set (members ''tasks:all'' ?s)"
    unfolding all by blast
  fix st
  from told sts[of "JStr (id' t)" st]
  show "JStr (id' t) \<in> set (members (''tasks:'' @ status_name st) ?s) \<longleftrightarrow> st = status t"
    by (auto simp: status_key_def)
qed

lemma complete_by_array:
  "complete_task (ctx_of ''alice'' False 9) \<lparr>p_id = JArr [JStr ''task_000001'']\<rparr> first_store =
     (moved_store ''tasks:completed'' (JArr [JStr ''task_000001''])
        \<lparr>id' = ''task_000001'', title = ''Write spec'', desc = [], assignee = JStr ''bob'',
         creator = ''alice'', status = Completed, created_at = 7, updated_at = 9,
         completed_by = Some ''alice'', cancelled_by = None\<rparr> first_store,
      Inr \<lparr>success = True, r_id = JArr [JStr ''task_000001''],
           r_task = \<lparr>id' = ''task_000001'', title = ''Write spec'', desc = [],
                     assignee = JStr ''bob'', creator = ''alice'', status = Completed,
                     created_at = 7, updated_at = 9, completed_by = Some ''alice'',
                     cancelled_by = None\<rparr>,
           r_broadcast = \<lparr>n_type = ''task_update'', n_id = JArr [JStr ''task_000001''],
                          n_status = ''completed''\<rparr>\<rparr>)"
  using first_store_task
  by (simp add: complete_task_def Let_def ctx_of_def moved_store_def)

lemma array_completed_store_eq:
  "array_completed_store =
     moved_store ''tasks:completed'' (JArr [JStr ''task_000001''])
        \<lparr>id' = ''task_000001'', title = ''Write spec'', desc = [], assignee = JStr ''bob'',
         creator = ''alice'', status = Completed, created_at = 7, updated_at = 9,
         completed_by = Some ''alice'', cancelled_by = None\<rparr> first_store"
proof -
  have "array_completed_store =
     fst (complete_task (ctx_of ''alice'' False 9) \<lparr>p_id = JArr [JStr ''task_000001'']\<rparr>
            first_store)"
    by (simp add: array_completed_store_def array_complete_log_def first_store_def)
  then show ?thesis by (simp only: complete_by_array fst_conv)
qed

text \<open>
  Claim C2 at a concrete log.  The handlers look a task up under \<^verbatim>\<open>task:${id}\<close>, the id
  turned into a string, but hand the id as it came to \<^verbatim>\<open>srem\<close> and \<^verbatim>\<open>sadd\<close>; they
  check only that the id is truthy, where \<open>add_task\<close> checks \<^verbatim>\<open>typeof title\<close>.  When
  alice creates a task and then completes it under the id \<^verbatim>\<open>['task_000001']\<close>, both
  operations succeed and the store is reachable; the task object is completed, yet
  \<^verbatim>\<open>tasks:open\<close> still holds \<^verbatim>\<open>task_000001\<close>, \<^verbatim>\<open>tasks:completed\<close> holds the array
  and not the id, and \<open>stats\<close> counts total 1 against open 1, completed 1, cancelled 0.
\<close>

theorem array_id_breaks_index:
  "\<not> isl (snd (add_task (ctx_of ''alice'' False 7)
       \<lparr>p_title = JStr ''Write spec'', p_desc = JUndefined, p_assignee = JStr ''bob''\<rparr>
       empty_store))
   \<and> \<not> isl (snd (complete_task (ctx_of ''alice'' False 9)
       \<lparr>p_id = JArr [JStr ''task_000001'']\<rparr> first_store))
   \<and> reachable array_completed_store
   \<and> map_option status (st_get ''task:task_000001'' array_completed_store) = Some Completed
   \<and> members ''tasks:all'' array_completed_store = [JStr ''task_000001'']
   \<and> members ''tasks:open'' array_completed_store = [JStr ''task_000001'']
   \<and> members ''tasks:completed'' array_completed_store = [JArr [JStr ''task_000001'']]
   \<and> members ''tasks:cancelled'' array_completed_store = []
   \<and> stats array_completed_store = \<lparr>total = 1, open = 1, completed = 1, cancelled = 0\<rparr>"
proof -
  have 1: "\<not> isl (snd (add_task (ctx_of ''alice'' False 7)
       \<lparr>p_title = JStr ''Write spec'', p_desc = JUndefined, p_assignee = JStr ''bob''\<rparr>
       empty_store))"
    by (subst add_task_ok[where t = "''Write spec''" and d = "[]", OF _ _ _ _ _ refl])
       (simp_all add: default_to_def)
  have 2: "\<not> isl (snd (complete_task (ctx_of ''alice'' False 9)
       \<lparr>p_id = JArr [JStr ''task_000001'']\<rparr> first_store))"
    by (simp add: complete_by_array)
  have 3: "reachable array_completed_store"
    unfolding array_completed_store_def using reachable.initial by (rule reachable_run)
  have 4: "map_option status (st_get ''task:task_000001'' array_completed_store) = Some Completed"
    by (simp add: array_completed_store_eq st_get_def objects_moved_store)
  have 5: "members ''tasks:all'' array_completed_store = [JStr ''task_000001'']"
    "members ''tasks:open'' array_completed_store = [JStr ''task_000001'']"
    "members ''tasks:completed'' array_completed_store = [JArr [JStr ''task_000001'']]"
    "members ''tasks:cancelled'' array_completed_store = []"
    by (simp_all add: array_completed_store_eq moved_store_def members_sadd members_srem
          first_store_members)
  from 5 have 6: "stats array_completed_store
      = \<lparr>total = 1, open = 1, completed = 1, cancelled = 0\<rparr>"
    by (simp add: stats_def)
  from 1 2 3 4 5 6 show ?thesis by blast
qed

theorem array_id_breaks_index_witness:
  "JStr ''task_000001'' \<in> set (members ''tasks:open'' array_completed_store)
   \<and> JStr ''task_000001'' \<notin> set (members ''tasks:completed'' array_completed_store)
   \<and> total (stats array_completed_store)
       \<noteq> open (stats array_completed_store) + completed (stats array_completed_store)
         + cancelled (stats array_completed_store)"
  using array_id_breaks_index by simp

section \<open>The preconditions of \<open>complete_task\<close>\<close>

text \<open>
  Claim C3.  \<open>complete_task\<close> first requires the id to be given (\<^verbatim>\<open>if (!id)\<close> throws
  \<^verbatim>\<open>id is required\<close>).  For a given id it checks, in this order, each with an error of
  its own: no task object under the id is a not-found error; a task whose status is not
  open is an invalid-state error whose message contains the status; a signer who is neither
  the creator nor the assignee is an authorization error, whatever \<open>isAdmin\<close> says of the
  signer.  Every throw leaves the store as it was.  After a successful completion, the
  same operation applied again, by any signer, is rejected with an invalid-state error.
\<close>

theorem complete_task_precondition_order:
  "(\<not> truthy (p_id p) \<longrightarrow>
      complete_task c p s = (s, Inl (ValidationError ''id is required'')))
   \<and> (truthy (p_id p) \<and> st_get (''task:'' @ to_string (p_id p)) s = None \<longrightarrow>
      complete_task c p s
        = (s, Inl (NotFoundError (''Task '' @ to_string (p_id p) @ '' not found''))))
   \<and> (\<forall>t. truthy (p_id p) \<and> st_get (''task:'' @ to_string (p_id p)) s = Some t \<and>
          status t \<noteq> Open \<longrightarrow>
          (\<exists>m pre post. complete_task c p s = (s, Inl (InvalidStateError m)) \<and>
             m = pre @ status_name (status t) @ post))
   \<and> (\<forall>t. truthy (p_id p) \<and> st_get (''task:'' @ to_string (p_id p)) s = Some t \<and>
          status t = Open \<and> creator t \<noteq> signer c \<and> assignee t \<noteq> JStr (signer c) \<longrightarrow>
          complete_task c p s
            = (s, Inl (AuthorizationError
                         ''Only the creator or assignee may complete this task'')))
   \<and> (\<forall>s' r c'. complete_task c p s = (s', Inr r) \<longrightarrow>
          (\<exists>m. complete_task c' p s' = (s', Inl (InvalidStateError m))))"
proof (intro conjI allI impI)
  assume "\<not> truthy (p_id p)"
  then show "complete_task c p s = (s, Inl (ValidationError ''id is required''))"
    by (simp add: complete_task_def Let_def)
next
  assume "truthy (p_id p) \<and> st_get (''task:'' @ to_string (p_id p)) s = None"
  then show "complete_task c p s
        = (s, Inl (NotFoundError (''Task '' @ to_string (p_id p) @ '' not found'')))"
    by (simp add: complete_task_def Let_def)
next
  fix t
  assume a: "truthy (p_id p) \<and> st_get (''task:'' @ to_string (p_id p)) s = Some t \<and>
          status t \<noteq> Open"
  let ?pre = "''Task '' @ to_string (p_id p) @ '' is not open (status: ''"
  from a have "complete_task c p s
      = (s, Inl (InvalidStateError (?pre @ status_name (status t) @ '')'')))"
    by (simp add: complete_task_def Let_def)
  then show "\<exists>m pre post. complete_task c p s = (s, Inl (InvalidStateError m)) \<and>
             m = pre @ status_name (status t) @ post"
    by blast
next
  fix t
  assume "truthy (p_id p) \<and> st_get (''task:'' @ to_string (p_id p)) s = Some t \<and>
          status t = Open \<and> creator t \<noteq> signer c \<and> assignee t \<noteq> JStr (signer c)"
  then show "complete_task c p s
            = (s, Inl (AuthorizationError
                         ''Only the creator or assignee may complete this task''))"
    by (simp add: complete_task_def Let_def)
next
  fix s' r c'
  assume ok: "complete_task c p s = (s', Inr r)"
  from complete_task_success_cases[OF ok] have
    t: "truthy (p_id p)" "status (r_task r) = Completed"
       "s' = moved_store ''tasks:completed'' (p_id p) (r_task r) s"
    by auto
  then have "st_get (''task:'' @ to_string (p_id p)) s' = Some (r_task r)"
    by (simp add: st_get_def objects_moved_store)
  with t show "\<exists>m. complete_task c' p s' = (s', Inl (InvalidStateError m))"
    by (simp add: complete_task_def Let_def)
qed

theorem complete_task_precondition_order_witness:
  "complete_task (ctx_of ''carol'' True 9) \<lparr>p_id = JStr ''task_000001''\<rparr> first_store
     = (first_store,
        Inl (AuthorizationError ''Only the creator or assignee may complete this task''))
   \<and> complete_task (ctx_of ''bob'' False 9) \<lparr>p_id = JStr ''task_000002''\<rparr> first_store
     = (first_store, Inl (NotFoundError ''Task task_000002 not found''))
   \<and> complete_task (ctx_of ''bob'' False 9) \<lparr>p_id = JStr ''''\<rparr> first_store
     = (first_store, Inl (ValidationError ''id is required''))
   \<and> (\<exists>s' r m. complete_task (ctx_of ''bob'' False 9) \<lparr>p_id = JStr ''task_000001''\<rparr> first_store
                    = (s', Inr r)
         \<and> complete_task (ctx_of ''alice'' False 10) \<lparr>p_id = JStr ''task_000001''\<rparr> s'
             = (s', Inl (InvalidStateError m)))"
proof -
  note th = complete_task_precondition_order
  have none: "st_get ''task:task_000002'' first_store = None"
    by (simp add: first_store_eq st_get_def objects_created_store created_task_def taskId_of_1
                  empty_store_def)
  have 1: "complete_task (ctx_of ''carol'' True 9) \<lparr>p_id = JStr ''task_000001''\<rparr> first_store
     = (first_store,
        Inl (AuthorizationError ''Only the creator or assignee may complete this task''))"
    using th[of "\<lparr>p_id = JStr ''task_000001''\<rparr>" "ctx_of ''carol'' True 9" first_store]
      first_store_task by (simp add: ctx_of_def)
  have 2: "complete_task (ctx_of ''bob'' False 9) \<lparr>p_id = JStr ''task_000002''\<rparr> first_store
     = (first_store, Inl (NotFoundError ''Task task_000002 not found''))"
    using th[of "\<lparr>p_id = JStr ''task_000002''\<rparr>" "ctx_of ''bob'' False 9" first_store] none
    by simp
  have 3: "complete_task (ctx_of ''bob'' False 9) \<lparr>p_id = JStr ''''\<rparr> first_store
     = (first_store, Inl (ValidationError ''id is required''))"
    using th[of "\<lparr>p_id = JStr ''''\<rparr>" "ctx_of ''bob'' False 9" first_store] by simp
  obtain s' r where ok:
    "complete_task (ctx_of ''bob'' False 9) \<lparr>p_id = JStr ''task_000001''\<rparr> first_store = (s', Inr r)"
    using first_store_task by (simp add: complete_task_def ctx_of_def Let_def)
  with th[of "\<lparr>p_id = JStr ''task_000001''\<rparr>" "ctx_of ''bob'' False 9" first_store]
  obtain m where "complete_task (ctx_of ''alice'' False 10) \<lparr>p_id = JStr ''task_000001''\<rparr> s'
             = (s', Inl (InvalidStateError m))"
    by blast
  with ok 1 2 3 show ?thesis by blast
qed

section \<open>Who may cancel\<close>

text \<open>
  In a consistent store, \<open>cancel_task\<close> on the id, given as a string, of an open task
  succeeds exactly when the signer is the creator of the task or an admin; any other
  signer, the assignee included, gets an authorization error and the store is unchanged.
  On success the task object is the old one with status cancelled, \<open>cancelled_by\<close> the
  signer and a new \<open>updated_at\<close>; it is stored under its key, and the id, a member of
  \<^verbatim>\<open>tasks:open\<close> before, is no longer one and is a member of \<^verbatim>\<open>tasks:cancelled\<close>.
\<close>

lemma cancel_task_string_id:
  assumes "store_inv s" and "p_id p = JStr i"
    and "st_get (''task:'' @ to_string (p_id p)) s = Some t" and "status t = Open"
  shows "((\<exists>s' r. cancel_task c p s = (s', Inr r)) \<longleftrightarrow>
            creator t = signer c \<or> isAdmin c (signer c))
       \<and> (creator t \<noteq> signer c \<and> \<not> isAdmin c (signer c) \<longrightarrow>
            cancel_task c p s
              = (s, Inl (AuthorizationError
                           ''Only the creator or an admin may cancel this task'')))
       \<and> (\<forall>s' r. cancel_task c p s = (s', Inr r) \<longrightarrow>
            r_task r = t\<lparr>status := Cancelled, updated_at := now c 0,
                          cancelled_by := Some (signer c)\<rparr> \<and>
            st_get (''task:'' @ to_string (p_id p)) s' = Some (r_task r) \<and>
            p_id p \<in> set (members ''tasks:open'' s) \<and>
            p_id p \<notin> set (members ''tasks:open'' s') \<and>
            p_id p \<in> set (members ''tasks:cancelled'' s'))"
proof -
  note inv = assms(1)
  from assms(3) have obj: "objects s (''task:'' @ to_string (p_id p)) = Some t"
    by (simp add: st_get_def)
  from obj assms(2) inv_string_id[OF inv, of i t]
  have v: "p_id p = JStr (id' t)" "truthy (p_id p)" by auto
  from inv have "JStr (id' t) \<in> set (members (status_key Open) s) \<longleftrightarrow>
      (\<exists>i u. JStr (id' t) = JStr i \<and> objects s (''task:'' @ i) = Some u \<and> status u = Open)"
    unfolding store_inv_def by blast
  with obj v(1) assms(4) have was_open: "p_id p \<in> set (members ''tasks:open'' s)"
    by (auto simp: status_key_def)
  have fail: "cancel_task c p s
              = (s, Inl (AuthorizationError
                           ''Only the creator or an admin may cancel this task''))"
    if "creator t \<noteq> signer c \<and> \<not> isAdmin c (signer c)"
    using that v(2) assms(3,4) by (simp add: cancel_task_def Let_def)
  have ok: "\<exists>s' r. cancel_task c p s = (s', Inr r)"
    if "creator t = signer c \<or> isAdmin c (signer c)"
    using that v(2) assms(3,4) by (auto simp: cancel_task_def Let_def)
  have post: "r_task r = t\<lparr>status := Cancelled, updated_at := now c 0,
                          cancelled_by := Some (signer c)\<rparr> \<and>
            st_get (''task:'' @ to_string (p_id p)) s' = Some (r_task r) \<and>
            p_id p \<in> set (members ''tasks:open'' s) \<and>
            p_id p \<notin> set (members ''tasks:open'' s') \<and>
            p_id p \<in> set (members ''tasks:cancelled'' s')"
    if "cancel_task c p s = (s', Inr r)" for s' r
  proof -
    from cancel_task_success_cases[OF that] assms(3) have
      r: "r_task r = t\<lparr>status := Cancelled, updated_at := now c 0,
                          cancelled_by := Some (signer c)\<rparr>"
      and s': "s' = moved_store ''tasks:cancelled'' (p_id p) (r_task r) s"
      by auto
    from s' have "st_get (''task:'' @ to_string (p_id p)) s' = Some (r_task r)"
      by (simp add: st_get_def objects_moved_store)
    moreover from s' have "p_id p \<notin> set (members ''tasks:open'' s')"
      "p_id p \<in> set (members ''tasks:cancelled'' s')"
      by (simp_all add: set_members_moved_store)
    ultimately show ?thesis using r was_open by simp
  qed
  have iff: "(\<exists>s' r. cancel_task c p s = (s', Inr r)) \<longleftrightarrow>
            creator t = signer c \<or> isAdmin c (signer c)"
  proof
    assume "\<exists>s' r. cancel_task c p s = (s', Inr r)"
    then obtain s' r where sr: "cancel_task c p s = (s', Inr r)" by blast
    show "creator t = signer c \<or> isAdmin c (signer c)"
    proof (rule ccontr)
      assume "\<not> (creator t = signer c \<or> isAdmin c (signer c))"
      then have "creator t \<noteq> signer c \<and> \<not> isAdmin c (signer c)" by simp
      from fail[OF this] sr show False by simp
    qed
  qed (rule ok)
  from iff fail post show ?thesis by blast
qed

lemma cancel_by_array:
  "cancel_task (ctx_of ''alice'' False 9) \<lparr>p_id = JArr [JStr ''task_000001'']\<rparr> first_store =
     (moved_store ''tasks:cancelled'' (JArr [JStr ''task_000001''])
        \<lparr>id' = ''task_000001'', title = ''Write spec'', desc = [], assignee = JStr ''bob'',
         creator = ''alice'', status = Cancelled, created_at = 7, updated_at = 9,
         completed_by = None, cancelled_by = Some ''alice''\<rparr> first_store,
      Inr \<lparr>success = True, r_id = JArr [JStr ''task_000001''],
           r_task = \<lparr>id' = ''task_000001'', title = ''Write spec'', desc = [],
                     assignee = JStr ''bob'', creator = ''alice'', status = Cancelled,
                     created_at = 7, updated_at = 9, completed_by = None,
                     cancelled_by = Some ''alice''\<rparr>,
           r_broadcast = \<lparr>n_type = ''task_update'', n_id = JArr [JStr ''task_000001''],
                          n_status = ''cancelled''\<rparr>\<rparr>)"
  using first_store_task
  by (simp add: cancel_task_def Let_def ctx_of_def moved_store_def)

lemma array_cancelled_store_eq:
  "array_cancelled_store =
     moved_store ''tasks:cancelled'' (JArr [JStr ''task_000001''])
        \<lparr>id' = ''task_000001'', title = ''Write spec'', desc = [], assignee = JStr ''bob'',
         creator = ''alice'', status = Cancelled, created_at = 7, updated_at = 9,
         completed_by = None, cancelled_by = Some ''alice''\<rparr> first_store"
proof -
  have "array_cancelled_store =
     fst (cancel_task (ctx_of ''alice'' False 9) \<lparr>p_id = JArr [JStr ''task_000001'']\<rparr>
            first_store)"
    by (simp add: array_cancelled_store_def array_cancel_log_def first_store_def)
  then show ?thesis by (simp only: cancel_by_array fst_conv)
qed

text \<open>
  Claim C4 at a concrete input.  The task \<^verbatim>\<open>task_000001\<close> of alice exists and is open.
  Alice, its creator, cancels it under the id \<^verbatim>\<open>['task_000001']\<close>: the operation is
  authorized and succeeds, the task object becomes cancelled with \<open>cancelled_by\<close> alice,
  but the id does not move: \<^verbatim>\<open>tasks:open\<close> still holds \<^verbatim>\<open>task_000001\<close>, and
  \<^verbatim>\<open>tasks:cancelled\<close> holds the array and not the id.  The cause is the one of claim C2:
  the lookup uses the id turned into a string, \<^verbatim>\<open>srem\<close> and \<^verbatim>\<open>sadd\<close> the id as it
  came.
\<close>

theorem array_id_cancel_leaves_open:
  "st_get ''task:task_000001'' first_store =
     Some \<lparr>id' = ''task_000001'', title = ''Write spec'', desc = [], assignee = JStr ''bob'',
           creator = ''alice'', status = Open, created_at = 7, updated_at = 7,
           completed_by = None, cancelled_by = None\<rparr>
   \<and> \<not> isl (snd (cancel_task (ctx_of ''alice'' False 9)
       \<lparr>p_id = JArr [JStr ''task_000001'']\<rparr> first_store))
   \<and> array_cancelled_store
       = fst (cancel_task (ctx_of ''alice'' False 9)
                \<lparr>p_id = JArr [JStr ''task_000001'']\<rparr> first_store)
   \<and> map_option status (st_get ''task:task_000001'' array_cancelled_store) = Some Cancelled
   \<and> map_option cancelled_by (st_get ''task:task_000001'' array_cancelled_store)
       = Some (Some ''alice'')
   \<and> members ''tasks:open'' first_store = [JStr ''task_000001'']
   \<and> members ''tasks:open'' array_cancelled_store = [JStr ''task_000001'']
   \<and> members ''tasks:cancelled'' array_cancelled_store = [JArr [JStr ''task_000001'']]"
proof -
  have 1: "\<not> isl (snd (cancel_task (ctx_of ''alice'' False 9)
       \<lparr>p_id = JArr [JStr ''task_000001'']\<rparr> first_store))"
    by (simp add: cancel_by_array)
  have 2: "array_cancelled_store
       = fst (cancel_task (ctx_of ''alice'' False 9)
                \<lparr>p_id = JArr [JStr ''task_000001'']\<rparr> first_store)"
    by (simp only: array_cancelled_store_eq cancel_by_array fst_conv)
  have 3: "map_option status (st_get ''task:task_000001'' array_cancelled_store) = Some Cancelled"
    "map_option cancelled_by (st_get ''task:task_000001'' array_cancelled_store)
       = Some (Some ''alice'')"
    by (simp_all add: array_cancelled_store_eq st_get_def objects_moved_store)
  have 4: "members ''tasks:open'' array_cancelled_store = [JStr ''task_000001'']"
    "members ''tasks:cancelled'' array_cancelled_store = [JArr [JStr ''task_000001'']]"
    by (simp_all add: array_cancelled_store_eq moved_store_def members_sadd members_srem
          first_store_members)
  from first_store_task 1 2 3 4 first_store_members(2) show ?thesis by blast
qed

theorem array_id_cancel_leaves_open_witness:
  "JStr ''task_000001'' \<in> set (members ''tasks:open'' array_cancelled_store)
   \<and> JStr ''task_000001'' \<notin> set (members ''tasks:cancelled'' array_cancelled_store)"
  using array_id_cancel_leaves_open by simp

section \<open>Task ids and the sequence counter\<close>

lemma length_string_of_nat_le:
  "n < 10 ^ k \<Longrightarrow> 0 < k \<Longrightarrow> length (string_of_nat n) \<le> k"
proof (induction n arbitrary: k rule: string_of_nat.induct)
  case (1 n)
  show ?case
  proof (cases "n < 10")
    case True
    with 1(3) show ?thesis by (subst string_of_nat.simps) simp
  next
    case False
    with 1(2) have "1 < k" by (cases "k = 1") (use 1(3) in auto)
    then obtain j where j: "k = Suc j" "0 < j" by (cases k) auto
    with 1(2) have "n div 10 < 10 ^ j" by (simp add: less_mult_imp_div_less mult.commute)
    from 1(1)[OF False this j(2)] j False show ?thesis
      by (subst string_of_nat.simps) simp
  qed
qed

lemma length_string_of_nat_gt:
  "10 ^ k \<le> n \<Longrightarrow> k < length (string_of_nat n)"
proof (induction n arbitrary: k rule: string_of_nat.induct)
  case (1 n)
  show ?case
  proof (cases "n < 10")
    case True
    with 1(2) have "(10::nat) ^ k < 10" by simp
    then have "k = 0" by (cases k) simp_all
    then show ?thesis by (subst string_of_nat.simps) simp
  next
    case False
    show ?thesis
    proof (cases k)
      case 0
      then show ?thesis by (simp add: string_of_nat_not_Nil)
    next
      case (Suc j)
      with 1(2) have "10 ^ j \<le> n div 10" by (simp add: less_eq_div_iff_mult_less_eq mult.commute)
      from 1(1)[OF False this] Suc False show ?thesis
        by (subst string_of_nat.simps) simp
    qed
  qed
qed

lemma taskId_of_shape:
  "taskId_of n = ''task_'' @ replicate (6 - length (string_of_nat n)) CHR ''0'' @ string_of_nat n"
  by (simp add: taskId_of_def padStart_def)

lemma taskId_of_length:
  "length (taskId_of n) = 5 + max 6 (length (string_of_nat n))"
  by (simp add: taskId_of_def padStart_def)

lemma seq_apply_op_mono: "seq s \<le> seq (fst (apply_op c op s))"
proof (cases "apply_op c op s")
  case (Pair s' res)
  show ?thesis
  proof (cases res)
    case (Inl e)
    with Pair apply_op_error_store[of c op s s' e] show ?thesis by auto
  next
    case (Inr r)
    show ?thesis
    proof (cases op)
      case (Add_task p)
      with Pair Inr add_task_success_store[of c p s s' r] show ?thesis by simp
    next
      case (Complete_task p)
      with Pair Inr complete_task_success_cases[of c p s s' r] show ?thesis by auto
    next
      case (Cancel_task p)
      with Pair Inr cancel_task_success_cases[of c p s s' r] show ?thesis by auto
    qed
  qed
qed

lemma added_ids_numbers:
  "\<exists>ns. added_ids ops s = map (\<lambda>n. JStr (taskId_of n)) ns \<and> sorted_wrt (<) ns \<and>
        (\<forall>n\<in>set ns. seq s < n)"
proof (induction ops arbitrary: s)
  case Nil
  show ?case by simp
next
  case (Cons a ops)
  obtain c op where a: "a = (c, op)" by (cases a)
  let ?s1 = "fst (apply_op c op s)"
  from Cons[of ?s1] obtain ns where
    ns: "added_ids ops ?s1 = map (\<lambda>n. JStr (taskId_of n)) ns" "sorted_wrt (<) ns"
        "\<forall>n\<in>set ns. seq ?s1 < n" by blast
  from ns(3) seq_apply_op_mono[of s c op] have gt: "\<forall>n\<in>set ns. seq s < n" by auto
  show ?case
  proof (cases op)
    case (Add_task p)
    obtain s1 res where r: "add_task c p s = (s1, res)" by (cases "add_task c p s")
    with Add_task have s1: "?s1 = s1" by simp
    show ?thesis
    proof (cases res)
      case (Inl e)
      with a Add_task r ns s1 gt show ?thesis by auto
    next
      case (Inr x)
      from add_task_success_store[OF r[unfolded Inr]]
      have x: "r_id x = JStr (taskId_of (Suc (seq s)))" "seq s1 = Suc (seq s)" by simp_all
      with ns(3) s1 have "\<forall>n\<in>set ns. Suc (seq s) < n" by simp
      with a Add_task r Inr ns s1 x gt show ?thesis
        by (intro exI[of _ "Suc (seq s) # ns"]) simp
    qed
  next
    case (Complete_task p)
    with a ns gt show ?thesis by auto
  next
    case (Cancel_task p)
    with a ns gt show ?thesis by auto
  qed
qed

lemma taskId_of_million: "taskId_of 1000000 = ''task_1000000''"
  by (simp add: taskId_of_def padStart_def string_of_nat.simps digit_char_def)

lemma seq_late_store: "seq late_store = 999999"
  by (simp add: late_store_def seq_def)

lemma distinct_added_ids: "distinct (added_ids ops s)"
proof -
  from added_ids_numbers[of ops s] obtain ns where
    ns: "added_ids ops s = map (\<lambda>n. JStr (taskId_of n)) ns" "sorted_wrt (<) ns" by blast
  from ns(2) have "distinct ns" by (simp add: strict_sorted_iff)
  moreover have "inj_on (\<lambda>n. JStr (taskId_of n)) (set ns)"
    by (rule inj_onI) (simp add: taskId_of_inject)
  ultimately show ?thesis unfolding ns(1) by (simp add: distinct_map)
qed

text \<open>
  Claim C6, as the code has it.  A successful \<open>add_task\<close> increments \<^verbatim>\<open>task_seq\<close> by
  exactly one and returns the id \<^verbatim>\<open>task_\<close> followed by the new counter value in
  decimal, padded with zeros on the left to at least 6 digits: exactly 6 digits while the
  value is below 1000000, and the unpadded decimal digits, 7 or more, from 1000000 on.
  Over any log of operations, the ids returned by the successful \<open>add_task\<close> operations
  are the ids of strictly increasing counter values, and they are distinct.
\<close>

theorem add_task_sequence_ids:
  "(\<forall>s' r. add_task c p s = (s', Inr r) \<longrightarrow>
       seq s' = seq s + 1 \<and> r_id r = JStr (taskId_of (seq s')) \<and>
       id' (r_task r) = taskId_of (seq s'))
   \<and> taskId_of n
        = ''task_'' @ replicate (6 - length (string_of_nat n)) CHR ''0'' @ string_of_nat n
   \<and> (n < 1000000 \<longrightarrow> length (taskId_of n) = 5 + 6)
   \<and> (1000000 \<le> n \<longrightarrow> taskId_of n = ''task_'' @ string_of_nat n \<and>
                          5 + 6 < length (taskId_of n))
   \<and> (\<exists>ns. added_ids ops s = map (\<lambda>n. JStr (taskId_of n)) ns \<and> sorted_wrt (<) ns \<and>
             (\<forall>n\<in>set ns. seq s < n))
   \<and> distinct (added_ids ops s)"
proof (intro conjI allI impI)
  fix s' r assume ok: "add_task c p s = (s', Inr r)"
  from add_task_success_store[OF ok]
  show "seq s' = seq s + 1" "r_id r = JStr (taskId_of (seq s'))"
    "id' (r_task r) = taskId_of (seq s')"
    by simp_all
next
  show "taskId_of n
        = ''task_'' @ replicate (6 - length (string_of_nat n)) CHR ''0'' @ string_of_nat n"
    by (rule taskId_of_shape)
next
  assume "n < 1000000"
  then have "n < 10 ^ 6" by simp
  from length_string_of_nat_le[OF this] show "length (taskId_of n) = 5 + 6"
    by (simp add: taskId_of_length)
next
  assume "1000000 \<le> n"
  then have "10 ^ 6 \<le> n" by simp
  from length_string_of_nat_gt[OF this] have l: "6 < length (string_of_nat n)" .
  then show "taskId_of n = ''task_'' @ string_of_nat n" by (simp add: taskId_of_shape)
  from l show "5 + 6 < length (taskId_of n)" by (simp add: taskId_of_length)
next
  show "\<exists>ns. added_ids ops s = map (\<lambda>n. JStr (taskId_of n)) ns \<and> sorted_wrt (<) ns \<and>
             (\<forall>n\<in>set ns. seq s < n)"
    by (rule added_ids_numbers)
next
  show "distinct (added_ids ops s)" by (rule distinct_added_ids)
qed

theorem add_task_sequence_ids_witness:
  "\<exists>s' r. add_task (ctx_of ''alice'' False 7) (titled ''x'') empty_store = (s', Inr r) \<and>
      seq s' = 1 \<and> r_id r = JStr ''task_000001'' \<and> length ''task_000001'' = 5 + 6 \<and>
      distinct (added_ids [(ctx_of ''alice'' False 7, Add_task (titled ''x'')),
                           (ctx_of ''bob'' False 8, Add_task (titled ''x''))] empty_store)"
proof -
  let ?c = "ctx_of ''alice'' False 7"
  let ?ops = "[(?c, Add_task (titled ''x'')), (ctx_of ''bob'' False 8, Add_task (titled ''x''))]"
  note th = add_task_sequence_ids[of ?c "titled ''x''" empty_store "Suc 0" ?ops]
  obtain s' r where ok: "add_task ?c (titled ''x'') empty_store = (s', Inr r)"
    using add_task_ok[of "titled ''x''" "''x''" "[]" _ ?c empty_store, OF _ _ _ _ _ refl]
    by (simp add: titled_def default_to_def)
  with th have "seq s' = 1" "r_id r = JStr (taskId_of (seq s'))" 
    by (simp_all add: seq_empty_store)
  moreover from th have "distinct (added_ids ?ops empty_store)" by blast
  ultimately show ?thesis using ok by (simp add: taskId_of_1)
qed

lemma bump_seq_iterated:
  "0 < n \<Longrightarrow> (bump_seq ^^ n) empty_store = empty_store\<lparr>counters := [''task_seq'' \<mapsto> n]\<rparr>"
proof (induction n)
  case 0
  then show ?case by simp
next
  case (Suc n)
  show ?case
  proof (cases "n = 0")
    case True
    then show ?thesis by (simp add: bump_seq_def seq_def empty_store_def fun_eq_iff)
  next
    case False
    with Suc.IH show ?thesis by (simp add: bump_seq_def seq_def empty_store_def fun_eq_iff)
  qed
qed

lemma reachable_bump_seq:
  assumes "reachable s"
  shows "reachable (bump_seq s)"
proof -
  have "apply_op (ctx_of ''alice'' False 7)
          (Add_task \<lparr>p_title = JStr ''x'', p_desc = JNum 5, p_assignee = JUndefined\<rparr>) s
        = (bump_seq s, Inl (TypeError ''desc.trim is not a function''))"
    by (simp add: add_task_def Let_def default_to_def increment_task_seq)
  with assms show ?thesis by (rule reachable.step)
qed

lemma reachable_bump_seq_iterated: "reachable ((bump_seq ^^ n) empty_store)"
  by (induction n) (simp_all add: reachable.initial reachable_bump_seq)

lemma reachable_late_store: "reachable late_store"
  using reachable_bump_seq_iterated[of 999999] bump_seq_iterated[of 999999]
  by (simp add: late_store_def)

text \<open>
  The id is not always \<^verbatim>\<open>task_\<close> and 6 digits: in a reachable store whose counter
  stands at 999999, the next \<open>add_task\<close> returns \<^verbatim>\<open>task_1000000\<close>.
\<close>

theorem add_task_id_seven_digits:
  "reachable late_store \<and> seq late_store = 999999 \<and>
   snd (add_task (ctx_of ''alice'' False 7) (titled ''x'') late_store)
     = Inr \<lparr>success = True, r_id = JStr ''task_1000000'',
            r_task = \<lparr>id' = ''task_1000000'', title = ''x'', desc = [], assignee = JNull,
                      creator = ''alice'', status = Open, created_at = 7, updated_at = 7,
                      completed_by = None, cancelled_by = None\<rparr>,
            r_broadcast = \<lparr>n_type = ''task_update'', n_id = JStr ''task_1000000'',
                           n_status = ''open''\<rparr>\<rparr>"
proof -
  have "Suc (seq late_store) = 1000000" by (simp add: seq_late_store)
  then show ?thesis
    using add_task_ok[of "titled ''x''" "''x''" "[]" _ "ctx_of ''alice'' False 7" late_store,
            OF _ _ _ _ _ refl]
    by (simp add: titled_def default_to_def created_task_def taskId_of_million seq_late_store
                  ctx_of_def trim_def is_ws_def reachable_late_store)
qed

section \<open>The view \<open>list_tasks\<close>\<close>

lemma existing_tasks_Nil [simp]: "existing_tasks [] s = []"
  by (simp add: existing_tasks_def)

lemma existing_tasks_Cons:
  "existing_tasks (i # ids) s =
     (case st_get (''task:'' @ to_string i) s of
        None \<Rightarrow> existing_tasks ids s | Some t \<Rightarrow> t # existing_tasks ids s)"
  by (simp add: existing_tasks_def split: option.splits)

lemma collect_tasks_eq:
  "collect_tasks st s ids acc =
     acc @ filter (\<lambda>t. truthy st \<longrightarrow> has_status st t) (existing_tasks ids s)"
  by (induction ids arbitrary: acc)
     (auto simp: existing_tasks_Cons has_status_def split: option.splits)

lemma set_existing_tasks:
  "t \<in> set (existing_tasks ids s) \<longleftrightarrow>
     (\<exists>i\<in>set ids. st_get (''task:'' @ to_string i) s = Some t)"
  by (induction ids) (auto simp: existing_tasks_Cons split: option.splits)

lemma sorted_newest_first:
  "sorted_wrt (\<lambda>x y. created_at y \<le> created_at x) (sort_newest_first ts)"
proof -
  have "sorted (map (\<lambda>t. - created_at t) (sort_newest_first ts))"
    unfolding sort_newest_first_def by (rule sorted_sort_key)
  then show ?thesis by (simp add: sorted_map)
qed

lemma mset_sort_newest_first: "mset (sort_newest_first ts) = mset ts"
  by (simp add: sort_newest_first_def)

lemma status_set_filter_noop:
  assumes inv: "store_inv s"
  shows "filter (has_status (JStr (status_name x))) (existing_tasks (members (''tasks:'' @ status_name x) s) s)
           = existing_tasks (members (''tasks:'' @ status_name x) s) s"
proof (rule filter_True, rule ballI)
  fix t assume "t \<in> set (existing_tasks (members (''tasks:'' @ status_name x) s) s)"
  then obtain v where v: "v \<in> set (members (status_key x) s)"
    "st_get (''task:'' @ to_string v) s = Some t"
    unfolding set_existing_tasks status_key_def by blast
  from inv v(1) obtain i u where "v = JStr i" "objects s (''task:'' @ i) = Some u" "status u = x"
    unfolding store_inv_def by blast
  with v(2) show "has_status (JStr (status_name x)) t"
    by (simp add: st_get_def has_status_def)
qed

lemma truthy_status_name: "truthy (JStr (status_name x))"
  by (cases x) simp_all

lemma tasks_list_tasks:
  "tasks (list_tasks (Some \<lparr>q_status = st, q_assignee = a\<rparr>) s) =
     sort_newest_first (filter (\<lambda>t. truthy st \<longrightarrow> has_status st t)
       (existing_tasks
          (if truthy a then members (''tasks:assignee:'' @ to_string a) s
           else if truthy st then members (''tasks:'' @ to_string st) s
           else members ''tasks:all'' s) s))"
  by (simp add: list_tasks_def Let_def collect_tasks_eq)

text \<open>
  Claim C7.  A filter is given when it is truthy (\<^verbatim>\<open>if (assignee)\<close>, \<^verbatim>\<open>if (status)\<close>).
  With an assignee given, the candidates are the members of the set of that assignee, and
  the result holds the task objects of the candidates, those in the given status when a
  status is given too and all of them when none is.  With only a status given, the
  candidates are the members of \<^verbatim>\<open>tasks:<status>\<close>, and the same status test is applied;
  in a consistent store and for one of the three statuses it removes nothing, so that the
  result holds the task objects of all members of the set of that status.  With no filter
  the candidates are the members of \<^verbatim>\<open>tasks:all\<close>.  A candidate without a task object
  contributes nothing.  The result is ordered by \<open>created_at\<close>, newest first, and \<open>count\<close>
  is its length.
\<close>

theorem list_tasks_resolution:
  "(truthy a \<and> truthy st \<longrightarrow>
      mset (tasks (list_tasks (Some \<lparr>q_status = st, q_assignee = a\<rparr>) s))
        = mset (filter (has_status st)
                  (existing_tasks (members (''tasks:assignee:'' @ to_string a) s) s)))
   \<and> (truthy a \<and> \<not> truthy st \<longrightarrow>
      mset (tasks (list_tasks (Some \<lparr>q_status = st, q_assignee = a\<rparr>) s))
        = mset (existing_tasks (members (''tasks:assignee:'' @ to_string a) s) s))
   \<and> (\<not> truthy a \<and> truthy st \<longrightarrow>
      mset (tasks (list_tasks (Some \<lparr>q_status = st, q_assignee = a\<rparr>) s))
        = mset (filter (has_status st)
                  (existing_tasks (members (''tasks:'' @ to_string st) s) s)))
   \<and> (\<not> truthy a \<and> store_inv s \<longrightarrow>
      (\<forall>x. st = JStr (status_name x) \<longrightarrow>
         mset (tasks (list_tasks (Some \<lparr>q_status = st, q_assignee = a\<rparr>) s))
           = mset (existing_tasks (members (''tasks:'' @ status_name x) s) s)))
   \<and> (\<not> truthy a \<and> \<not> truthy st \<longrightarrow>
      mset (tasks (list_tasks (Some \<lparr>q_status = st, q_assignee = a\<rparr>) s))
        = mset (existing_tasks (members ''tasks:all'' s) s))
   \<and> list_tasks None s = list_tasks (Some \<lparr>q_status = JUndefined, q_assignee = JUndefined\<rparr>) s
   \<and> (\<forall>t. t \<in> set (existing_tasks ids s) \<longleftrightarrow>
          (\<exists>i\<in>set ids. st_get (''task:'' @ to_string i) s = Some t))
   \<and> sorted_wrt (\<lambda>x y. created_at y \<le> created_at x)
        (tasks (list_tasks (Some \<lparr>q_status = st, q_assignee = a\<rparr>) s))
   \<and> count (list_tasks (Some \<lparr>q_status = st, q_assignee = a\<rparr>) s)
        = length (tasks (list_tasks (Some \<lparr>q_status = st, q_assignee = a\<rparr>) s))"
proof (intro conjI impI allI)
  assume "truthy a \<and> truthy st"
  then show "mset (tasks (list_tasks (Some \<lparr>q_status = st, q_assignee = a\<rparr>) s))
        = mset (filter (has_status st)
                  (existing_tasks (members (''tasks:assignee:'' @ to_string a) s) s))"
    by (simp add: tasks_list_tasks mset_sort_newest_first)
next
  assume "truthy a \<and> \<not> truthy st"
  then show "mset (tasks (list_tasks (Some \<lparr>q_status = st, q_assignee = a\<rparr>) s))
        = mset (existing_tasks (members (''tasks:assignee:'' @ to_string a) s) s)"
    by (simp add: tasks_list_tasks mset_sort_newest_first)
next
  assume "\<not> truthy a \<and> truthy st"
  then show "mset (tasks (list_tasks (Some \<lparr>q_status = st, q_assignee = a\<rparr>) s))
        = mset (filter (has_status st)
                  (existing_tasks (members (''tasks:'' @ to_string st) s) s))"
    by (simp add: tasks_list_tasks mset_sort_newest_first)
next
  fix x
  assume a: "\<not> truthy a \<and> store_inv s" and st: "st = JStr (status_name x)"
  from a have inv: "store_inv s" by simp
  from a st truthy_status_name[of x]
  have "tasks (list_tasks (Some \<lparr>q_status = st, q_assignee = a\<rparr>) s)
      = sort_newest_first (filter (has_status (JStr (status_name x)))
          (existing_tasks (members (''tasks:'' @ status_name x) s) s))"
    by (simp add: tasks_list_tasks)
  then show "mset (tasks (list_tasks (Some \<lparr>q_status = st, q_assignee = a\<rparr>) s))
           = mset (existing_tasks (members (''tasks:'' @ status_name x) s) s)"
    by (simp only: status_set_filter_noop[OF inv] mset_sort_newest_first)
next
  assume "\<not> truthy a \<and> \<not> truthy st"
  then show "mset (tasks (list_tasks (Some \<lparr>q_status = st, q_assignee = a\<rparr>) s))
        = mset (existing_tasks (members ''tasks:all'' s) s)"
    by (simp add: tasks_list_tasks mset_sort_newest_first)
next
  show "list_tasks None s = list_tasks (Some \<lparr>q_status = JUndefined, q_assignee = JUndefined\<rparr>) s"
    by (simp add: list_tasks_def)
next
  fix t
  show "t \<in> set (existing_tasks ids s) \<longleftrightarrow>
          (\<exists>i\<in>set ids. st_get (''task:'' @ to_string i) s = Some t)"
    by (rule set_existing_tasks)
next
  show "sorted_wrt (\<lambda>x y. created_at y \<le> created_at x)
        (tasks (list_tasks (Some \<lparr>q_status = st, q_assignee = a\<rparr>) s))"
    unfolding tasks_list_tasks by (rule sorted_newest_first)
next
  show "count (list_tasks (Some \<lparr>q_status = st, q_assignee = a\<rparr>) s)
        = length (tasks (list_tasks (Some \<lparr>q_status = st, q_assignee = a\<rparr>) s))"
    by (simp add: list_tasks_def Let_def)
qed

theorem list_tasks_resolution_witness:
  "mset (tasks (list_tasks (Some \<lparr>q_status = JUndefined, q_assignee = JStr ''bob''\<rparr>) first_store))
     = {#\<lparr>id' = ''task_000001'', title = ''Write spec'', desc = [], assignee = JStr ''bob'',
           creator = ''alice'', status = Open, created_at = 7, updated_at = 7,
           completed_by = None, cancelled_by = None\<rparr>#}
   \<and> mset (tasks (list_tasks (Some \<lparr>q_status = JStr ''open'', q_assignee = JUndefined\<rparr>) first_store))
     = {#\<lparr>id' = ''task_000001'', title = ''Write spec'', desc = [], assignee = JStr ''bob'',
           creator = ''alice'', status = Open, created_at = 7, updated_at = 7,
           completed_by = None, cancelled_by = None\<rparr>#}
   \<and> mset (tasks (list_tasks (Some \<lparr>q_status = JStr ''completed'', q_assignee = JStr ''bob''\<rparr>)
                      first_store)) = {#}
   \<and> count (list_tasks (Some \<lparr>q_status = JStr ''open'', q_assignee = JUndefined\<rparr>) first_store) = 1"
proof -
  let ?t = "\<lparr>id' = ''task_000001'', title = ''Write spec'', desc = [], assignee = JStr ''bob'',
           creator = ''alice'', status = Open, created_at = 7, updated_at = 7,
           completed_by = None, cancelled_by = None\<rparr>"
  have e: "existing_tasks [JStr ''task_000001''] first_store = [?t]"
    using first_store_task by (simp add: existing_tasks_Cons)
  note a = list_tasks_resolution[of "JStr ''bob''" JUndefined first_store]
  note b = list_tasks_resolution[of JUndefined "JStr ''open''" first_store]
  note c = list_tasks_resolution[of "JStr ''bob''" "JStr ''completed''" first_store]
  from a have 1: "mset (tasks (list_tasks (Some \<lparr>q_status = JUndefined, q_assignee = JStr ''bob''\<rparr>)
      first_store)) = {#?t#}"
    by (simp add: first_store_members e)
  from b store_inv_first_store
  have "\<forall>x. JStr ''open'' = JStr (status_name x) \<longrightarrow>
         mset (tasks (list_tasks (Some \<lparr>q_status = JStr ''open'', q_assignee = JUndefined\<rparr>) first_store))
           = mset (existing_tasks (members (''tasks:'' @ status_name x) first_store) first_store)"
    by simp
  from this[rule_format, of Open]
  have 2: "mset (tasks (list_tasks (Some \<lparr>q_status = JStr ''open'', q_assignee = JUndefined\<rparr>)
      first_store)) = {#?t#}"
    by (simp add: first_store_members e)
  from c have 3: "mset (tasks (list_tasks (Some \<lparr>q_status = JStr ''completed'',
      q_assignee = JStr ''bob''\<rparr>) first_store)) = {#}"
    by (simp add: first_store_members e has_status_def)
  have "length (tasks (list_tasks (Some \<lparr>q_status = JStr ''open'', q_assignee = JUndefined\<rparr>)
      first_store))
    = size (mset (tasks (list_tasks (Some \<lparr>q_status = JStr ''open'', q_assignee = JUndefined\<rparr>)
      first_store)))"
    by simp
  from this[unfolded 2]
  have len: "length (tasks (list_tasks (Some \<lparr>q_status = JStr ''open'', q_assignee = JUndefined\<rparr>)
      first_store)) = 1"
    by simp
  from b have "count (list_tasks (Some \<lparr>q_status = JStr ''open'', q_assignee = JUndefined\<rparr>)
      first_store)
    = length (tasks (list_tasks (Some \<lparr>q_status = JStr ''open'', q_assignee = JUndefined\<rparr>)
      first_store))"
    by blast
  with len have 4: "count (list_tasks (Some \<lparr>q_status = JStr ''open'', q_assignee = JUndefined\<rparr>)
      first_store) = 1"
    by simp
  from 1 2 3 4 show ?thesis by blast
qed

section \<open>Timestamps and the wall clock\<close>

lemma run_single_add:
  "run [(ctx_of who adm tm, Add_task (titled ''a''))] empty_store =
     created_store (created_task (ctx_of who adm tm) (Suc 0) ''a'' [] JNull) empty_store"
  using add_task_ok[of "titled ''a''" "''a''" "[]" _ "ctx_of who adm tm" empty_store,
          OF _ _ _ _ _ refl]
  by (simp add: titled_def default_to_def seq_empty_store)

lemma run_single_add_created_at:
  "map_option created_at
     (st_get ''task:task_000001'' (run [(ctx_of who adm tm, Add_task (titled ''a''))] empty_store))
     = Some tm"
  unfolding run_single_add
  by (simp add: st_get_def objects_created_store created_task_def taskId_of_1 ctx_of_def)

text \<open>
  Claim C1 at a concrete log.  The handlers read the wall clock (\<^verbatim>\<open>Date.now()\<close>) for
  \<open>created_at\<close> and \<open>updated_at\<close>.  The same single operation, \<open>add_task\<close> with title
  \<^verbatim>\<open>a\<close> signed by alice, applied to the empty store when the clock reads 1000 and when it
  reads 2000, leaves two different stores: the task objects differ in \<open>created_at\<close>.
\<close>

theorem same_log_different_timestamps:
  "map_option created_at (st_get ''task:task_000001''
      (run [(ctx_of ''alice'' False 1000, Add_task (titled ''a''))] empty_store)) = Some 1000
   \<and> map_option created_at (st_get ''task:task_000001''
      (run [(ctx_of ''alice'' False 2000, Add_task (titled ''a''))] empty_store)) = Some 2000
   \<and> signer (ctx_of ''alice'' False 1000) = signer (ctx_of ''alice'' False 2000)
   \<and> isAdmin (ctx_of ''alice'' False 1000) = isAdmin (ctx_of ''alice'' False 2000)
   \<and> run [(ctx_of ''alice'' False 1000, Add_task (titled ''a''))] empty_store
       \<noteq> run [(ctx_of ''alice'' False 2000, Add_task (titled ''a''))] empty_store"
proof -
  have a: "map_option created_at (st_get ''task:task_000001''
      (run [(ctx_of ''alice'' False 1000, Add_task (titled ''a''))] empty_store)) = Some 1000"
    by (rule run_single_add_created_at)
  have b: "map_option created_at (st_get ''task:task_000001''
      (run [(ctx_of ''alice'' False 2000, Add_task (titled ''a''))] empty_store)) = Some 2000"
    by (rule run_single_add_created_at)
  have "run [(ctx_of ''alice'' False 1000, Add_task (titled ''a''))] empty_store
       \<noteq> run [(ctx_of ''alice'' False 2000, Add_task (titled ''a''))] empty_store"
  proof
    assume "run [(ctx_of ''alice'' False 1000, Add_task (titled ''a''))] empty_store
       = run [(ctx_of ''alice'' False 2000, Add_task (titled ''a''))] empty_store"
    with a b show False by (simp del: run.simps)
  qed
  moreover have "signer (ctx_of ''alice'' False 1000) = signer (ctx_of ''alice'' False 2000)"
    "isAdmin (ctx_of ''alice'' False 1000) = isAdmin (ctx_of ''alice'' False 2000)"
    by (simp_all add: ctx_of_def)
  ultimately show ?thesis using a b by blast
qed

end
